theory Spec2Isabelle
  imports Complex_Main "HOL-Library.Log_Nat" "HOL-Library.Word"
begin

section \<open>JavaScript numbers\<close>

text \<open>
  Every number of \<^verbatim>\<open>App.jsx\<close> is an IEEE 754 binary64 value, and every arithmetic
  operator rounds its exact result to the nearest binary64 value, ties to the even
  significand. A finite binary64 value is a rational, so numbers are modelled as \<open>rat\<close>
  and each operator as the exact operation followed by a rounding function.

  \<open>round_binary64\<close> is that rounding for the normal range (magnitudes between
  \<open>2^-1022\<close> and \<open>2^1024\<close>); the sampler only forms sums of at most
  \<open>65026 * len\<close>, products of such values and differences of them, which stay in it.
  The arithmetic of the sampler takes the rounding as a parameter \<open>rnd\<close>: the program
  is the instance \<open>rnd = round_binary64\<close>, exact arithmetic is \<open>rnd = (\<lambda>x. x)\<close>.
\<close>

definition pow2 :: "int \<Rightarrow> rat" where
  "pow2 e = (if 0 \<le> e then 2 ^ nat e else 1 / 2 ^ nat (- e))"

definition binary_exponent :: "rat \<Rightarrow> int" where
  \<comment> \<open>the \<open>e\<close> with \<open>2^e \<le> |q| < 2^(e+1)\<close>, for \<open>q \<noteq> 0\<close>\<close>
  "binary_exponent q =
     (let (a, b) = quotient_of \<bar>q\<bar>;
          d = bitlen a - bitlen b
      in if pow2 d \<le> \<bar>q\<bar> then d else d - 1)"

definition round_half_even :: "rat \<Rightarrow> int" where
  "round_half_even q =
     (let f = \<lfloor>q\<rfloor>; d = q - of_int f
      in if d < 1 / 2 then f else if 1 / 2 < d then f + 1
         else if even f then f else f + 1)"

definition round_binary64 :: "rat \<Rightarrow> rat" where
  \<comment> \<open>53 significant bits: the unit in the last place of \<open>q\<close> is \<open>2^(e - 52)\<close>\<close>
  "round_binary64 q =
     (if q = 0 then 0
      else let ulp = pow2 (binary_exponent q - 52)
           in of_int (round_half_even (q / ulp)) * ulp)"

section \<open>The frame sampler: the synchronous part of \<^verbatim>\<open>check\<close>\<close>

type_synonym byte = "8 word"

text \<open>
  \<^verbatim>\<open>imgData.data\<close> is a \<^verbatim>\<open>Uint8ClampedArray\<close> holding four bytes (red, green, blue,
  alpha) for each pixel; the loop of \<^verbatim>\<open>check\<close> advances by four and reads the first
  three. The array is modelled as the list of its four-byte groups.
\<close>

type_synonym rgba = "byte \<times> byte \<times> byte \<times> byte"

definition byte_value :: "byte \<Rightarrow> rat" where
  "byte_value x = of_nat (unat x)"

definition gray :: "(rat \<Rightarrow> rat) \<Rightarrow> rgba \<Rightarrow> rat" where
  \<comment> \<open>\<^verbatim>\<open>0.299*r + 0.587*g + 0.114*b\<close>, the literals rounded as the parser rounds them\<close>
  "gray rnd p =
     (case p of (r, g, b, a) \<Rightarrow>
        rnd (rnd (rnd (rnd (299 / 1000) * byte_value r)
                  + rnd (rnd (587 / 1000) * byte_value g))
             + rnd (rnd (114 / 1000) * byte_value b)))"

fun accumulate :: "(rat \<Rightarrow> rat) \<Rightarrow> rgba list \<Rightarrow> rat \<times> rat \<Rightarrow> rat \<times> rat" where
  \<comment> \<open>the \<^verbatim>\<open>for\<close> loop: \<^verbatim>\<open>sum += gray; sumSq += gray*gray\<close> (\<open>sum0\<close> is \<^verbatim>\<open>sum\<close>)\<close>
  "accumulate rnd [] (sum0, sumSq) = (sum0, sumSq)"
| "accumulate rnd (p # ps) (sum0, sumSq) =
     (let g = gray rnd p
      in accumulate rnd ps (rnd (sum0 + g), rnd (sumSq + rnd (g * g))))"

definition variance :: "(rat \<Rightarrow> rat) \<Rightarrow> nat \<Rightarrow> rgba list \<Rightarrow> rat" where
  \<comment> \<open>\<^verbatim>\<open>mean = sum / len; variance = (sumSq / len) - (mean*mean)\<close>; \<^verbatim>\<open>check\<close> calls it
      with \<open>len > 0\<close> only\<close>
  "variance rnd len pixels =
     (let (sum0, sumSq) = accumulate rnd pixels (0, 0);
          mean = rnd (sum0 / of_nat len)
      in rnd (rnd (sumSq / of_nat len) - rnd (mean * mean)))"

text \<open>
  What \<^verbatim>\<open>check\<close> and \<^verbatim>\<open>capturePhoto\<close> read from the page at one moment: the state of
  the \<^verbatim>\<open>video\<close> element, the pixels \<^verbatim>\<open>getImageData\<close> returns for the centre box drawn
  from it, and the data URL \<^verbatim>\<open>toDataURL\<close> returns for the whole frame. The browser gives
  \<open>boxW * boxH\<close> pixels.
\<close>

record video =
  readyState :: nat
  videoWidth :: nat
  videoHeight :: nat
  boxPixels :: "rgba list"
  jpeg :: string

definition boxW :: "(rat \<Rightarrow> rat) \<Rightarrow> nat \<Rightarrow> nat" where
  \<comment> \<open>\<^verbatim>\<open>Math.floor(w * 0.6)\<close>\<close>
  "boxW rnd w = nat \<lfloor>rnd (of_nat w * rnd (6 / 10))\<rfloor>"

definition boxH :: "(rat \<Rightarrow> rat) \<Rightarrow> nat \<Rightarrow> nat" where
  \<comment> \<open>\<^verbatim>\<open>Math.floor(h * 0.2)\<close>\<close>
  "boxH rnd h = nat \<lfloor>rnd (of_nat h * rnd (2 / 10))\<rfloor>"

datatype sample =
    NotReady  \<comment> \<open>no video element, \<^verbatim>\<open>readyState < 2\<close> or a zero dimension: try the next frame\<close>
  | Threw     \<comment> \<open>\<^verbatim>\<open>getImageData\<close> raises IndexSizeError on an empty box\<close>
  | Quiet     \<comment> \<open>the guard of the \<^verbatim>\<open>if\<close> is false\<close>
  | Trigger   \<comment> \<open>the guard is true: capture\<close>

definition varianceThreshold :: rat where
  "varianceThreshold = 500"

definition sampler :: "(rat \<Rightarrow> rat) \<Rightarrow> rat \<Rightarrow> bool \<Rightarrow> video option \<Rightarrow> sample" where
  \<comment> \<open>\<^verbatim>\<open>check\<close> up to its \<^verbatim>\<open>if\<close>; \<open>thr\<close> is the local \<^verbatim>\<open>varianceThreshold\<close>, \<open>proc\<close> the
      \<^verbatim>\<open>processing\<close> the closure holds\<close>
  "sampler rnd thr proc vid =
     (case vid of
        None \<Rightarrow> NotReady
      | Some v \<Rightarrow>
          if readyState v < 2 then NotReady
          else if videoWidth v = 0 \<or> videoHeight v = 0 then NotReady
          else let bw = boxW rnd (videoWidth v); bh = boxH rnd (videoHeight v)
               in if bw = 0 \<or> bh = 0 then Threw
                  else if thr < variance rnd (bw * bh) (boxPixels v) \<and> \<not> proc
                       then Trigger else Quiet)"

section \<open>Component state and the two halves of \<^verbatim>\<open>runOcr\<close>\<close>

text \<open>
  The \<^verbatim>\<open>useState\<close> cells that the capture and recognition logic reads or writes.
  (\<^verbatim>\<open>stream\<close> and \<^verbatim>\<open>facingMode\<close> belong to the camera life cycle and are left out.)
  The engine is an opaque handle: \<^verbatim>\<open>worker\<close> is \<^verbatim>\<open>null\<close> until initialisation ends.
\<close>

datatype tesseract_worker = TesseractWorker

record app_state =
  ocrText :: string
  processing :: bool
  autoCapture :: bool
  worker :: "tesseract_worker option"
  lastCaptureDataUrl :: "string option"
  autoConfidenceThreshold :: rat

text \<open>
  What the user or the engine can observe. The two \<^verbatim>\<open>alert\<close> texts of \<^verbatim>\<open>runOcr\<close> are
  Korean sentences: "the OCR engine is getting ready, please wait" and "an error occurred
  during OCR".
\<close>

datatype notice = EngineNotReadyNotice | OcrErrorNotice

datatype origin =
    Manual     \<comment> \<open>\<^verbatim>\<open>onCaptureClick\<close>\<close>
  | Auto nat   \<comment> \<open>the \<^verbatim>\<open>check\<close> loop with this number\<close>

datatype effect =
    Alert notice
  | Snapshot origin string               \<comment> \<open>\<^verbatim>\<open>capturePhoto\<close> drew the frame and encoded it\<close>
  | Recognize origin nat "string option"  \<comment> \<open>\<^verbatim>\<open>worker.recognize\<close> called: job number, argument\<close>
  | ConsoleLog rat                        \<comment> \<open>the confidence\<close>
  | ConsoleError

datatype ocr_outcome =
    Resolved string rat   \<comment> \<open>\<^verbatim>\<open>{ data: { text, confidence } }\<close>\<close>
  | Rejected

definition capturePhoto :: "video option \<Rightarrow> app_state \<Rightarrow> string option \<times> app_state" where
  \<comment> \<open>\<open>None\<close> is a null \<^verbatim>\<open>videoRef.current\<close>: the function returns \<^verbatim>\<open>undefined\<close>\<close>
  "capturePhoto vid st =
     (case vid of
        None \<Rightarrow> (None, st)
      | Some v \<Rightarrow> (Some (jpeg v), st\<lparr>lastCaptureDataUrl := Some (jpeg v)\<rparr>))"

definition runOcr_begin :: "tesseract_worker option \<Rightarrow> app_state \<Rightarrow> app_state option" where
  \<comment> \<open>\<^verbatim>\<open>runOcr\<close> up to its \<^verbatim>\<open>await\<close>; \<open>None\<close> is the alert and the early return. The
      worker is the one the calling closure holds.\<close>
  "runOcr_begin w st =
     (case w of
        None \<Rightarrow> None
      | Some _ \<Rightarrow> Some (st\<lparr>processing := True, ocrText := ''''\<rparr>))"

definition runOcr_settle :: "ocr_outcome \<Rightarrow> app_state \<Rightarrow> app_state" where
  \<comment> \<open>\<^verbatim>\<open>runOcr\<close> after its \<^verbatim>\<open>await\<close>: \<^verbatim>\<open>try\<close> or \<^verbatim>\<open>catch\<close>, then \<^verbatim>\<open>finally\<close>\<close>
  "runOcr_settle out st =
     (case out of
        Resolved text confidence \<Rightarrow> st\<lparr>ocrText := text, processing := False\<rparr>
      | Rejected \<Rightarrow> st\<lparr>processing := False\<rparr>)"

definition settle_effects :: "ocr_outcome \<Rightarrow> effect list" where
  "settle_effects out =
     (case out of
        Resolved text confidence \<Rightarrow> [ConsoleLog confidence]
      | Rejected \<Rightarrow> [ConsoleError, Alert OcrErrorNotice])"

section \<open>The component as an event system\<close>

text \<open>
  JavaScript runs one task at a time; an \<^verbatim>\<open>async\<close> function gives control back at each
  \<^verbatim>\<open>await\<close> that waits for the engine, a timer or an animation frame. One step of the
  system is one such task followed by React's re-render, which runs the clean-up and the
  body of the auto-capture effect again when one of its dependencies
  \<^verbatim>\<open>[autoCapture, processing, worker]\<close> changed.

  Each run of that effect with \<^verbatim>\<open>autoCapture\<close> set creates a closure \<^verbatim>\<open>check\<close> over the
  \<^verbatim>\<open>processing\<close> and the \<^verbatim>\<open>worker\<close> of its render, and a variable \<^verbatim>\<open>rafId\<close>; the
  closure reschedules itself. A \<open>check_loop\<close> is one such closure with the place where it
  waits. The clean-up of an effect calls \<^verbatim>\<open>cancelAnimationFrame(rafId)\<close>, which removes
  a pending animation-frame request and does nothing when the request has already fired.

  At one display refresh the browser runs the pending animation-frame callbacks one after
  the other, each followed by its microtasks. Whether React re-renders and runs the effect
  between two callbacks of one refresh depends on its version (updates made outside an
  event handler are rendered at once by the legacy root and batched by the concurrent
  root), and the repository pins none. Both are in the model: \<open>Frame\<close> is the callback of
  one loop followed by the re-render, \<open>Tick\<close> is the callbacks of several loops followed by
  one re-render.
\<close>

datatype phase =
    AwaitFrame       \<comment> \<open>\<^verbatim>\<open>requestAnimationFrame(check)\<close> pending\<close>
  | AwaitOcr nat     \<comment> \<open>inside \<^verbatim>\<open>await runOcr(dataUrl)\<close>, job number\<close>
  | AwaitTimer nat   \<comment> \<open>inside the \<^verbatim>\<open>setTimeout\<close> of 1500 ms, due time\<close>
  | Cancelled        \<comment> \<open>its animation-frame request was cancelled\<close>
  | Failed           \<comment> \<open>\<^verbatim>\<open>check\<close> ended with an exception\<close>

record check_loop =
  seen_processing :: bool
  seen_worker :: "tesseract_worker option"
  phase :: phase

record system =
  app :: app_state
  loops :: "check_loop list"
  effect_loop :: "nat option"        \<comment> \<open>the loop of the effect whose clean-up is pending\<close>
  jobs :: "(nat \<times> origin) list"      \<comment> \<open>\<^verbatim>\<open>recognize\<close> calls in flight, with who awaits them\<close>
  next_job :: nat
  journal :: "(nat \<times> effect) list"   \<comment> \<open>time in ms and effect, oldest first\<close>
  clock :: nat

datatype event =
    Click "video option"        \<comment> \<open>the capture button: \<^verbatim>\<open>onCaptureClick\<close>\<close>
  | ToggleAuto                  \<comment> \<open>\<^verbatim>\<open>setAutoCapture(p => !p)\<close>\<close>
  | Slider int                  \<comment> \<open>the range input: \<^verbatim>\<open>setAutoConfidenceThreshold(value/1000)\<close>\<close>
  | ClearText                   \<comment> \<open>\<^verbatim>\<open>setOcrText('')\<close>\<close>
  | WorkerReady                 \<comment> \<open>initialisation ended: \<^verbatim>\<open>setWorker(w)\<close>\<close>
  | Frame nat "video option"    \<comment> \<open>the animation frame of a loop: \<^verbatim>\<open>check\<close> runs\<close>
  | Tick "nat list" "video option"
      \<comment> \<open>one display refresh: \<^verbatim>\<open>check\<close> of these loops, in this order, then one re-render\<close>
  | Settle nat ocr_outcome      \<comment> \<open>the promise of a \<^verbatim>\<open>recognize\<close> call settles\<close>
  | TimerFires nat              \<comment> \<open>the 1500 ms timer of a loop fires\<close>
  | Elapse nat                  \<comment> \<open>time passes\<close>

definition emit :: "effect list \<Rightarrow> system \<Rightarrow> system" where
  "emit es s = s\<lparr>journal := journal s @ map (Pair (clock s)) es\<rparr>"

definition set_phase :: "nat \<Rightarrow> phase \<Rightarrow> system \<Rightarrow> system" where
  "set_phase i ph s =
     (if i < length (loops s)
      then s\<lparr>loops := (loops s)[i := (loops s ! i)\<lparr>phase := ph\<rparr>]\<rparr> else s)"

definition request :: "origin \<Rightarrow> tesseract_worker option \<Rightarrow> video option \<Rightarrow> system \<Rightarrow> system" where
  \<comment> \<open>\<^verbatim>\<open>const dataUrl = await capturePhoto(); await runOcr(dataUrl)\<close> up to the \<^verbatim>\<open>await\<close>
      inside \<^verbatim>\<open>runOcr\<close>, as \<^verbatim>\<open>onCaptureClick\<close> and \<^verbatim>\<open>check\<close> both do\<close>
  "request who w vid s =
     (let (dataUrl, st1) = capturePhoto vid (app s);
          s1 = emit (case dataUrl of None \<Rightarrow> [] | Some d \<Rightarrow> [Snapshot who d]) (s\<lparr>app := st1\<rparr>)
      in case runOcr_begin w st1 of
           None \<Rightarrow> emit [Alert EngineNotReadyNotice] s1
         | Some st2 \<Rightarrow>
             emit [Recognize who (next_job s1) dataUrl]
               (s1\<lparr>app := st2, jobs := jobs s1 @ [(next_job s1, who)],
                   next_job := Suc (next_job s1)\<rparr>))"

definition check :: "nat \<Rightarrow> video option \<Rightarrow> system \<Rightarrow> system" where
  \<comment> \<open>one run of the closure \<^verbatim>\<open>check\<close> of loop \<open>i\<close>, up to its first real wait\<close>
  "check i vid s =
     (if i < length (loops s) \<and> phase (loops s ! i) = AwaitFrame
      then let l = loops s ! i
           in case sampler round_binary64 varianceThreshold (seen_processing l) vid of
                NotReady \<Rightarrow> s
              | Threw \<Rightarrow> set_phase i Failed s
              | Quiet \<Rightarrow> s
              | Trigger \<Rightarrow>
                  set_phase i
                    (case seen_worker l of
                       None \<Rightarrow> AwaitTimer (clock s + 1500)
                     | Some _ \<Rightarrow> AwaitOcr (next_job s))
                    (request (Auto i) (seen_worker l) vid s)
      else s)"

definition settle :: "nat \<Rightarrow> ocr_outcome \<Rightarrow> system \<Rightarrow> system" where
  \<comment> \<open>the rest of \<^verbatim>\<open>runOcr\<close>, then the rest of its caller: \<^verbatim>\<open>check\<close> starts its timer\<close>
  "settle j out s =
     (case map_of (jobs s) j of
        None \<Rightarrow> s
      | Some who \<Rightarrow>
          let s1 = emit (settle_effects out)
                     (s\<lparr>app := runOcr_settle out (app s),
                        jobs := filter (\<lambda>(k, _). k \<noteq> j) (jobs s)\<rparr>)
          in case who of
               Manual \<Rightarrow> s1
             | Auto i \<Rightarrow> set_phase i (AwaitTimer (clock s + 1500)) s1)"

definition timer_fires :: "nat \<Rightarrow> system \<Rightarrow> system" where
  \<comment> \<open>after the timer: \<^verbatim>\<open>rafId = requestAnimationFrame(check)\<close>\<close>
  "timer_fires i s =
     (if i < length (loops s)
      then case phase (loops s ! i) of
             AwaitTimer due \<Rightarrow> if due \<le> clock s then set_phase i AwaitFrame s else s
           | _ \<Rightarrow> s
      else s)"

definition tick :: "nat list \<Rightarrow> video option \<Rightarrow> system \<Rightarrow> system" where
  "tick ids vid s = fold (\<lambda>i. check i vid) ids s"

fun handle :: "event \<Rightarrow> system \<Rightarrow> system" where
  "handle (Click vid) s = request Manual (worker (app s)) vid s"
| "handle ToggleAuto s = s\<lparr>app := (app s)\<lparr>autoCapture := \<not> autoCapture (app s)\<rparr>\<rparr>"
| "handle (Slider v) s =
     s\<lparr>app := (app s)\<lparr>autoConfidenceThreshold := round_binary64 (of_int v / 1000)\<rparr>\<rparr>"
| "handle ClearText s = s\<lparr>app := (app s)\<lparr>ocrText := ''''\<rparr>\<rparr>"
| "handle WorkerReady s = s\<lparr>app := (app s)\<lparr>worker := Some TesseractWorker\<rparr>\<rparr>"
| "handle (Frame i vid) s = check i vid s"
| "handle (Tick ids vid) s = tick ids vid s"
| "handle (Settle j out) s = settle j out s"
| "handle (TimerFires i) s = timer_fires i s"
| "handle (Elapse dt) s = s\<lparr>clock := clock s + dt\<rparr>"

definition deps :: "app_state \<Rightarrow> bool \<times> bool \<times> tesseract_worker option" where
  "deps st = (autoCapture st, processing st, worker st)"

definition cleanup :: "system \<Rightarrow> system" where
  \<comment> \<open>\<^verbatim>\<open>() => cancelAnimationFrame(rafId)\<close>\<close>
  "cleanup s =
     (case effect_loop s of
        None \<Rightarrow> s
      | Some i \<Rightarrow>
          if i < length (loops s) \<and> phase (loops s ! i) = AwaitFrame
          then set_phase i Cancelled s else s)"

definition run_effect :: "system \<Rightarrow> system" where
  \<comment> \<open>the body of the effect: \<^verbatim>\<open>if (!autoCapture) return\<close>, else a new \<^verbatim>\<open>check\<close> is scheduled\<close>
  "run_effect s =
     (if autoCapture (app s)
      then s\<lparr>loops := loops s @
                 [\<lparr>seen_processing = processing (app s), seen_worker = worker (app s),
                   phase = AwaitFrame\<rparr>],
             effect_loop := Some (length (loops s))\<rparr>
      else s\<lparr>effect_loop := None\<rparr>)"

definition commit :: "app_state \<Rightarrow> system \<Rightarrow> system" where
  \<comment> \<open>the re-render after a task that started in component state \<open>old\<close>\<close>
  "commit old s = (if deps (app s) = deps old then s else run_effect (cleanup s))"

definition step :: "event \<Rightarrow> system \<Rightarrow> system" where
  "step e s = commit (app s) (handle e s)"

fun run :: "event list \<Rightarrow> system \<Rightarrow> system" where
  "run [] s = s"
| "run (e # es) s = run es (step e s)"

fun resolves :: "event \<Rightarrow> bool" where
  \<comment> \<open>the events in which a recognition call succeeds\<close>
  "resolves (Settle j (Resolved text confidence)) = True"
| "resolves _ = False"

definition initial :: system where
  \<comment> \<open>after mounting: the \<^verbatim>\<open>useState\<close> defaults, the effect has run with \<^verbatim>\<open>autoCapture\<close> false\<close>
  "initial =
     \<lparr>app = \<lparr>ocrText = '''', processing = False, autoCapture = False, worker = None,
             lastCaptureDataUrl = None, autoConfidenceThreshold = round_binary64 (6 / 10)\<rparr>,
      loops = [], effect_loop = None, jobs = [], next_job = 0, journal = [], clock = 0\<rparr>"

text \<open>
  Two frames of a 4 by 5 video, whose centre box is 2 by 1 pixels: a black pixel beside a
  pixel of level 60 (variance 900), and a black pixel beside a pixel of level 40
  (variance 400).
\<close>

definition text_frame :: video where
  "text_frame = \<lparr>readyState = 4, videoWidth = 4, videoHeight = 5,
      boxPixels = [(0, 0, 0, 255), (60, 60, 60, 255)], jpeg = ''page''\<rparr>"

definition faint_frame :: video where
  "faint_frame = \<lparr>readyState = 4, videoWidth = 4, videoHeight = 5,
      boxPixels = [(0, 0, 0, 255), (40, 40, 40, 255)], jpeg = ''wall''\<rparr>"

text \<open>
  For the error analysis of the sampler: the unit roundoff of binary64, and \<open>near k a x\<close>,
  which says that \<open>x\<close> is the non-negative exact value \<open>a\<close> after at most \<open>k\<close> roundings.
\<close>

definition unit_roundoff :: rat where
  "unit_roundoff = 1 / 2 ^ 53"

definition near :: "nat \<Rightarrow> rat \<Rightarrow> rat \<Rightarrow> bool" where
  "near k a x = (a * (1 - unit_roundoff) ^ k \<le> x \<and> x \<le> a * (1 + unit_roundoff) ^ k)"

section \<open>Properties of the sampler\<close>

lemma accumulate_exact_uniform:
  "accumulate (\<lambda>x. x) (replicate n p) (s, q) =
     (s + of_nat n * gray (\<lambda>x. x) p, q + of_nat n * (gray (\<lambda>x. x) p * gray (\<lambda>x. x) p))"
  by (induction n arbitrary: s q) (simp_all add: Let_def algebra_simps)

text \<open>
  C9. For one frame and one value of the processing flag, a frame that does not trigger at
  a cutoff does not trigger at any larger cutoff.
\<close>

theorem C9_threshold_monotone:
  "t1 \<le> t2 \<Longrightarrow> sampler rnd t1 proc vid \<noteq> Trigger \<Longrightarrow> sampler rnd t2 proc vid \<noteq> Trigger"
  by (auto simp: sampler_def Let_def split: option.splits if_splits)

lemma box_4_5: "boxW round_binary64 4 = 2" "boxH round_binary64 5 = 1"
  by code_simp+

lemma variance_text: "variance round_binary64 2 [(0, 0, 0, 255), (60, 60, 60, 255)] = 900"
  by code_simp

lemma variance_faint: "variance round_binary64 2 [(0, 0, 0, 255), (40, 40, 40, 255)] = 400"
  by code_simp

lemma sampler_text:
  "sampler round_binary64 varianceThreshold proc (Some text_frame) =
     (if proc then Quiet else Trigger)"
  by (simp add: sampler_def text_frame_def box_4_5 variance_text varianceThreshold_def)

lemma sampler_faint:
  "sampler round_binary64 varianceThreshold proc (Some faint_frame) = Quiet"
  by (simp add: sampler_def faint_frame_def box_4_5 variance_faint varianceThreshold_def)

theorem C9_threshold_monotone_witness:
  "(500::rat) \<le> 2000 \<and> sampler round_binary64 500 False (Some faint_frame) \<noteq> Trigger
   \<and> sampler round_binary64 2000 False (Some faint_frame) \<noteq> Trigger"
proof -
  have h1: "(500::rat) \<le> 2000" by simp
  have h2: "sampler round_binary64 500 False (Some faint_frame) \<noteq> Trigger"
    by (simp add: sampler_def faint_frame_def box_4_5 variance_faint)
  show ?thesis using h1 h2 C9_threshold_monotone [OF h1 h2] by simp
qed

subsection \<open>Rounding error\<close>

lemma pow2_powi: "pow2 e = 2 powi e"
  by (simp add: pow2_def power_int_def inverse_eq_divide power_one_over)

lemma pow2_pos: "0 < pow2 e"
  by (simp add: pow2_powi)

lemma round_half_even_error: "\<bar>of_int (round_half_even q) - q\<bar> \<le> 1 / 2"
proof -
  have "of_int \<lfloor>q\<rfloor> \<le> q" "q < of_int \<lfloor>q\<rfloor> + 1"
    by linarith+
  then show ?thesis
    by (auto simp: round_half_even_def Let_def abs_le_iff)
qed

lemma binary_exponent_lower:
  assumes "q \<noteq> 0"
  shows "pow2 (binary_exponent q) \<le> \<bar>q\<bar>"
proof -
  obtain a b where ab: "quotient_of \<bar>q\<bar> = (a, b)" by (cases "quotient_of \<bar>q\<bar>")
  then have b: "0 < b" by (rule quotient_of_denom_pos)
  from ab have q: "\<bar>q\<bar> = of_int a / of_int b" by (rule quotient_of_div)
  from assms have "0 < \<bar>q\<bar>" by simp
  with q b have a: "0 < a" by (simp add: zero_less_divide_iff)
  define d where "d = bitlen a - bitlen b"
  have e: "binary_exponent q = (if pow2 d \<le> \<bar>q\<bar> then d else d - 1)"
    by (simp add: binary_exponent_def ab d_def Let_def)
  show ?thesis
  proof (cases "pow2 d \<le> \<bar>q\<bar>")
    case True
    with e show ?thesis by simp
  next
    case False
    have la: "(2::rat) powi (bitlen a - 1) \<le> of_int a"
    proof -
      have "2 ^ nat (bitlen a - 1) \<le> a" using bitlen_bounds [OF a] by simp
      then have "(of_int (2 ^ nat (bitlen a - 1)) :: rat) \<le> of_int a" by (simp only: of_int_le_iff)
      moreover have "0 \<le> bitlen a - 1" using a by (simp add: bitlen_alt_def)
      ultimately show ?thesis by (simp add: power_int_def)
    qed
    have lb: "of_int b \<le> (2::rat) powi (bitlen b)"
    proof -
      have "b < 2 ^ nat (bitlen b)" using bitlen_bounds [OF b] by simp
      then have "(of_int b :: rat) < of_int (2 ^ nat (bitlen b))" by (simp only: of_int_less_iff)
      moreover have "0 \<le> bitlen b" by (rule bitlen_nonneg)
      ultimately show ?thesis by (simp add: power_int_def)
    qed
    have "pow2 (d - 1) = 2 powi (bitlen a - 1) / 2 powi (bitlen b)"
      by (simp add: pow2_powi d_def power_int_diff)
    also have "\<dots> \<le> of_int a / 2 powi (bitlen b)"
      using la by (simp add: divide_right_mono)
    also have "\<dots> \<le> of_int a / of_int b"
      using lb a b by (simp add: divide_left_mono)
    finally show ?thesis using e False q by simp
  qed
qed

lemma round_binary64_error: "\<bar>round_binary64 q - q\<bar> \<le> unit_roundoff * \<bar>q\<bar>"
proof (cases "q = 0")
  case True
  then show ?thesis by (simp add: round_binary64_def)
next
  case False
  define e where "e = binary_exponent q"
  define ulp where "ulp = pow2 (e - 52)"
  have ulp: "0 < ulp" by (simp add: ulp_def pow2_pos)
  have r: "round_binary64 q = of_int (round_half_even (q / ulp)) * ulp"
    using False by (simp add: round_binary64_def Let_def ulp_def e_def)
  have "round_binary64 q - q = (of_int (round_half_even (q / ulp)) - q / ulp) * ulp"
    using ulp by (simp add: r field_simps)
  then have "\<bar>round_binary64 q - q\<bar> = \<bar>of_int (round_half_even (q / ulp)) - q / ulp\<bar> * ulp"
    using ulp by (simp add: abs_mult)
  also have "\<dots> \<le> 1 / 2 * ulp"
    using round_half_even_error [of "q / ulp"] ulp by (simp add: mult_right_mono)
  also have "\<dots> = unit_roundoff * pow2 e"
    by (simp add: ulp_def pow2_powi unit_roundoff_def power_int_diff)
  also have "\<dots> \<le> unit_roundoff * \<bar>q\<bar>"
    using binary_exponent_lower [OF False] by (simp add: e_def unit_roundoff_def)
  finally show ?thesis .
qed


lemma unit_roundoff_range: "0 < unit_roundoff" "unit_roundoff < 1"
  by (simp_all add: unit_roundoff_def)

lemma near_refl: "near 0 a a"
  by (simp add: near_def)

lemma near_nonneg: "0 \<le> a \<Longrightarrow> near k a x \<Longrightarrow> 0 \<le> x"
proof -
  assume a: "0 \<le> a" and n: "near k a x"
  have "0 \<le> a * (1 - unit_roundoff) ^ k"
    using a unit_roundoff_range by simp
  with n show ?thesis by (simp add: near_def)
qed

lemma near_round:
  assumes a: "0 \<le> a" and n: "near k a x"
  shows "near (Suc k) a (round_binary64 x)"
proof -
  have x: "0 \<le> x" using a n by (rule near_nonneg)
  have e: "\<bar>round_binary64 x - x\<bar> \<le> unit_roundoff * x"
    using round_binary64_error [of x] x by simp
  have lo: "x * (1 - unit_roundoff) \<le> round_binary64 x"
    using e by (simp add: abs_le_iff algebra_simps)
  have hi: "round_binary64 x \<le> x * (1 + unit_roundoff)"
    using e by (simp add: abs_le_iff algebra_simps)
  have "a * (1 - unit_roundoff) ^ Suc k = (a * (1 - unit_roundoff) ^ k) * (1 - unit_roundoff)"
    by simp
  also have "\<dots> \<le> x * (1 - unit_roundoff)"
    using n unit_roundoff_range by (intro mult_right_mono) (simp_all add: near_def)
  finally have l: "a * (1 - unit_roundoff) ^ Suc k \<le> round_binary64 x"
    using lo by simp
  have "x * (1 + unit_roundoff) \<le> (a * (1 + unit_roundoff) ^ k) * (1 + unit_roundoff)"
    using n unit_roundoff_range by (intro mult_right_mono) (simp_all add: near_def)
  also have "\<dots> = a * (1 + unit_roundoff) ^ Suc k"
    by simp
  finally have "round_binary64 x \<le> a * (1 + unit_roundoff) ^ Suc k"
    using hi by simp
  with l show ?thesis by (simp add: near_def)
qed

lemma near_mono:
  assumes a: "0 \<le> a" and jk: "j \<le> k" and n: "near j a x"
  shows "near k a x"
proof -
  have "(1 - unit_roundoff) ^ k \<le> (1 - unit_roundoff) ^ j"
    using jk unit_roundoff_range by (intro power_decreasing) simp_all
  then have "a * (1 - unit_roundoff) ^ k \<le> a * (1 - unit_roundoff) ^ j"
    using a by (rule mult_left_mono)
  moreover have "(1 + unit_roundoff) ^ j \<le> (1 + unit_roundoff) ^ k"
    using jk unit_roundoff_range by (intro power_increasing) simp_all
  then have "a * (1 + unit_roundoff) ^ j \<le> a * (1 + unit_roundoff) ^ k"
    using a by (rule mult_left_mono)
  ultimately show ?thesis using n by (simp add: near_def)
qed

lemma near_add: "near k a x \<Longrightarrow> near k b y \<Longrightarrow> near k (a + b) (x + y)"
  by (simp add: near_def distrib_right add_mono)

lemma near_mult:
  assumes a: "0 \<le> a" and b: "0 \<le> b" and x: "near j a x" and y: "near k b y"
  shows "near (j + k) (a * b) (x * y)"
proof -
  have la: "0 \<le> a * (1 - unit_roundoff) ^ j" and lb: "0 \<le> b * (1 - unit_roundoff) ^ k"
    using a b unit_roundoff_range by simp_all
  have "(a * (1 - unit_roundoff) ^ j) * (b * (1 - unit_roundoff) ^ k) \<le> x * y"
    using x y la lb by (intro mult_mono) (simp_all add: near_def)
  moreover have "x * y \<le> (a * (1 + unit_roundoff) ^ j) * (b * (1 + unit_roundoff) ^ k)"
    using x y near_nonneg [OF a x] near_nonneg [OF b y] a b unit_roundoff_range
    by (intro mult_mono) (simp_all add: near_def)
  ultimately show ?thesis
    by (simp add: near_def power_add mult_ac)
qed

lemma near_divide: "0 < n \<Longrightarrow> near k a x \<Longrightarrow> near k (a / n) (x / n)"
  by (simp add: near_def divide_right_mono)


lemma byte_value_range: "0 \<le> byte_value x" "byte_value x \<le> 255"
proof -
  show "0 \<le> byte_value x" unfolding byte_value_def by (rule of_nat_0_le_iff)
  have "unat x < 2 ^ 8" using unsigned_less [of x] by simp
  then have "unat x \<le> 255" by simp
  then have "(of_nat (unat x) :: rat) \<le> of_nat 255" by (simp only: of_nat_le_iff)
  then show "byte_value x \<le> 255" by (simp add: byte_value_def)
qed

lemma gray_exact_range: "0 \<le> gray (\<lambda>x. x) p" "gray (\<lambda>x. x) p \<le> 255"
proof -
  obtain r g b a where p: "p = (r, g, b, a)" by (cases p)
  have e: "gray (\<lambda>x. x) p = 299 / 1000 * byte_value r + 587 / 1000 * byte_value g
      + 114 / 1000 * byte_value b"
    by (simp add: gray_def p)
  show "0 \<le> gray (\<lambda>x. x) p"
    using byte_value_range(1) [of r] byte_value_range(1) [of g] byte_value_range(1) [of b]
    by (simp add: e)
  show "gray (\<lambda>x. x) p \<le> 255"
    using byte_value_range(2) [of r] byte_value_range(2) [of g] byte_value_range(2) [of b]
    by (simp add: e)
qed

lemma near_term:
  assumes c: "0 \<le> c"
  shows "near 2 (c * byte_value x) (round_binary64 (round_binary64 c * byte_value x))"
proof -
  have "near 1 c (round_binary64 c)"
    using near_round [OF c near_refl] by simp
  then have "near (1 + 0) (c * byte_value x) (round_binary64 c * byte_value x)"
    using c byte_value_range(1) near_refl by (intro near_mult)
  then have "near (Suc 1) (c * byte_value x) (round_binary64 (round_binary64 c * byte_value x))"
    using c byte_value_range(1) [of x] by (intro near_round) simp_all
  then show ?thesis by (simp add: numeral_2_eq_2)
qed

lemma gray_near: "near 4 (gray (\<lambda>x. x) p) (gray round_binary64 p)"
proof -
  obtain r g b a where p: "p = (r, g, b, a)" by (cases p)
  let ?R = "299 / 1000 * byte_value r" and ?G = "587 / 1000 * byte_value g"
    and ?B = "114 / 1000 * byte_value b"
  let ?r = "round_binary64 (round_binary64 (299 / 1000) * byte_value r)"
  let ?g = "round_binary64 (round_binary64 (587 / 1000) * byte_value g)"
  let ?b = "round_binary64 (round_binary64 (114 / 1000) * byte_value b)"
  have nn: "0 \<le> ?R" "0 \<le> ?G" "0 \<le> ?B"
    using byte_value_range(1) by simp_all
  have "near 2 (?R + ?G) (?r + ?g)"
    by (intro near_add near_term) simp_all
  then have "near (Suc 2) (?R + ?G) (round_binary64 (?r + ?g))"
    using nn by (intro near_round) simp_all
  moreover have "near (Suc 2) ?B ?b"
    using nn by (intro near_mono [of _ 2 "Suc 2"] near_term) simp_all
  ultimately have "near (Suc 2) (?R + ?G + ?B) (round_binary64 (?r + ?g) + ?b)"
    by (rule near_add)
  then have "near (Suc (Suc 2)) (?R + ?G + ?B) (round_binary64 (round_binary64 (?r + ?g) + ?b))"
    using nn by (intro near_round) simp_all
  then show ?thesis
    by (simp add: gray_def p eval_nat_numeral)
qed

lemma gray_range: "0 \<le> gray round_binary64 p" "gray round_binary64 p \<le> 256"
proof -
  note n = gray_near [of p]
  show "0 \<le> gray round_binary64 p"
    using gray_exact_range(1) n by (rule near_nonneg)
  have "gray round_binary64 p \<le> gray (\<lambda>x. x) p * (1 + unit_roundoff) ^ 4"
    using n by (simp add: near_def)
  also have "\<dots> \<le> 255 * (1 + unit_roundoff) ^ 4"
    using gray_exact_range(2) [of p] unit_roundoff_range by (intro mult_right_mono) simp_all
  also have "\<dots> \<le> 256"
    by (simp add: unit_roundoff_def power_divide)
  finally show "gray round_binary64 p \<le> 256" .
qed

lemma accumulate_uniform:
  assumes g: "0 \<le> gray round_binary64 p"
    and s: "near m (of_nat m * gray round_binary64 p) s"
    and q: "near (Suc m) (of_nat m * (gray round_binary64 p * gray round_binary64 p)) q"
  shows "near (m + n) (of_nat (m + n) * gray round_binary64 p)
           (fst (accumulate round_binary64 (replicate n p) (s, q))) \<and>
         near (Suc (m + n)) (of_nat (m + n) * (gray round_binary64 p * gray round_binary64 p))
           (snd (accumulate round_binary64 (replicate n p) (s, q)))"
  using s q
proof (induction n arbitrary: m s q)
  case 0
  then show ?case by simp
next
  case (Suc n)
  let ?g = "gray round_binary64 p"
  have gg: "0 \<le> ?g * ?g" using g by simp
  have "near m ?g ?g"
    using g near_refl by (intro near_mono [of _ 0 m]) simp_all
  with Suc.prems(1) have "near m (of_nat m * ?g + ?g) (s + ?g)"
    by (rule near_add)
  then have s1: "near (Suc m) (of_nat (Suc m) * ?g) (round_binary64 (s + ?g))"
    using g by (intro near_round) (simp_all add: algebra_simps)
  have "near (Suc 0) (?g * ?g) (round_binary64 (?g * ?g))"
    using gg near_refl by (rule near_round)
  then have "near (Suc m) (?g * ?g) (round_binary64 (?g * ?g))"
    using gg by (intro near_mono [of _ "Suc 0" "Suc m"]) simp_all
  with Suc.prems(2)
  have "near (Suc m) (of_nat m * (?g * ?g) + ?g * ?g) (q + round_binary64 (?g * ?g))"
    by (rule near_add)
  then have q1: "near (Suc (Suc m)) (of_nat (Suc m) * (?g * ?g))
      (round_binary64 (q + round_binary64 (?g * ?g)))"
    using gg by (intro near_round) (simp_all add: algebra_simps)
  from Suc.IH [OF s1 q1] show ?case
    by (simp add: Let_def)
qed


lemma power_one_plus_le:
  fixes u :: rat
  assumes "0 \<le> u" and "2 * of_nat k * u \<le> 1"
  shows "(1 + u) ^ k \<le> 1 + 2 * of_nat k * u"
  using assms(2)
proof (induction k)
  case 0
  then show ?case by simp
next
  case (Suc k)
  have ku: "2 * of_nat k * u \<le> 1"
    using Suc.prems assms(1) by (simp add: algebra_simps)
  have "(1 + u) ^ Suc k = (1 + u) ^ k * (1 + u)" by simp
  also have "\<dots> \<le> (1 + 2 * of_nat k * u) * (1 + u)"
    using Suc.IH [OF ku] assms(1) by (intro mult_right_mono) simp_all
  also have "\<dots> = 1 + 2 * of_nat k * u + u + (2 * of_nat k * u) * u"
    by (simp add: algebra_simps)
  also have "\<dots> \<le> 1 + 2 * of_nat k * u + u + 1 * u"
    using ku assms(1) by (intro add_left_mono mult_right_mono)
  also have "\<dots> = 1 + 2 * of_nat (Suc k) * u"
    by (simp add: algebra_simps)
  finally show ?case .
qed

lemma power_one_minus_ge:
  fixes u :: rat
  assumes "0 \<le> u" and "u \<le> 1"
  shows "1 - of_nat k * u \<le> (1 - u) ^ k"
proof (induction k)
  case 0
  then show ?case by simp
next
  case (Suc k)
  have "1 - of_nat (Suc k) * u \<le> (1 - of_nat k * u) * (1 - u)"
    using assms(1) by (simp add: algebra_simps)
  also have "\<dots> \<le> (1 - u) ^ k * (1 - u)"
    using Suc.IH assms by (intro mult_right_mono) simp_all
  also have "\<dots> = (1 - u) ^ Suc k"
    by simp
  finally show ?case .
qed

lemma uniform_variance_bound:
  assumes len: "0 < len" and small: "len \<le> 2 ^ 32"
  shows "\<bar>variance round_binary64 len (replicate len p)\<bar> \<le> of_nat (2 * len + 3) * (3 / 2 ^ 36)"
proof -
  let ?g = "gray round_binary64 p"
  let ?u = "unit_roundoff"
  define K where "K = 2 * len + 3"
  define s where "s = fst (accumulate round_binary64 (replicate len p) (0, 0))"
  define q where "q = snd (accumulate round_binary64 (replicate len p) (0, 0))"
  define mean where "mean = round_binary64 (s / of_nat len)"
  define M where "M = round_binary64 (mean * mean)"
  define Q where "Q = round_binary64 (q / of_nat len)"
  have v: "variance round_binary64 len (replicate len p) = round_binary64 (Q - M)"
    by (simp add: variance_def Let_def split_beta s_def q_def mean_def M_def Q_def)
  have g: "0 \<le> ?g" and g256: "?g \<le> 256" by (rule gray_range)+
  have gg: "0 \<le> ?g * ?g" using g by simp
  have gg_le: "?g * ?g \<le> 65536"
    using mult_mono [OF g256 g256 _ g] by simp
  have n0: "(0::rat) < of_nat len" using len by simp
  have acc: "near len (of_nat len * ?g) s \<and> near (Suc len) (of_nat len * (?g * ?g)) q"
    using accumulate_uniform [OF g, of 0 0 0 len] by (simp add: near_def s_def q_def)
  have "near len ((of_nat len * ?g) / of_nat len) (s / of_nat len)"
    using n0 acc by (intro near_divide) simp_all
  then have "near len ?g (s / of_nat len)" using n0 by simp
  then have m: "near (Suc len) ?g mean"
    unfolding mean_def using g by (intro near_round)
  have "near (Suc len + Suc len) (?g * ?g) (mean * mean)"
    using g m by (intro near_mult)
  then have "near (Suc (Suc len + Suc len)) (?g * ?g) M"
    unfolding M_def using gg by (intro near_round)
  then have M: "near K (?g * ?g) M"
    using gg by (intro near_mono [of _ "Suc (Suc len + Suc len)" K]) (simp_all add: K_def)
  have "near (Suc len) ((of_nat len * (?g * ?g)) / of_nat len) (q / of_nat len)"
    using n0 acc by (intro near_divide) simp_all
  then have "near (Suc len) (?g * ?g) (q / of_nat len)" using n0 by simp
  then have "near (Suc (Suc len)) (?g * ?g) Q"
    unfolding Q_def using gg by (intro near_round)
  then have Q: "near K (?g * ?g) Q"
    using gg by (intro near_mono [of _ "Suc (Suc len)" K]) (simp_all add: K_def)
  have Ku: "2 * of_nat K * ?u \<le> 1"
  proof -
    have "K \<le> 2 ^ 34" using small by (simp add: K_def)
    then have "(of_nat K :: rat) \<le> of_nat (2 ^ 34)" by (simp only: of_nat_le_iff)
    then show ?thesis by (simp add: unit_roundoff_def)
  qed
  have up: "(1 + ?u) ^ K \<le> 1 + 2 * of_nat K * ?u"
    using unit_roundoff_range Ku by (intro power_one_plus_le) simp_all
  have lo: "1 - of_nat K * ?u \<le> (1 - ?u) ^ K"
    using unit_roundoff_range by (intro power_one_minus_ge) simp_all
  have width: "(1 + ?u) ^ K - (1 - ?u) ^ K \<le> 3 * of_nat K * ?u"
    using up lo by simp
  have "\<bar>Q - M\<bar> \<le> ?g * ?g * (1 + ?u) ^ K - ?g * ?g * (1 - ?u) ^ K"
    using M Q by (simp add: near_def abs_le_iff)
  also have "\<dots> = ?g * ?g * ((1 + ?u) ^ K - (1 - ?u) ^ K)"
    by (simp add: algebra_simps)
  also have "\<dots> \<le> 65536 * (3 * of_nat K * ?u)"
  proof (rule mult_mono [OF gg_le width])
    show "(0::rat) \<le> 65536" by simp
    have "(1 - ?u) ^ K \<le> 1"
      using unit_roundoff_range by (intro power_le_one) simp_all
    moreover have "1 \<le> (1 + ?u) ^ K"
      using unit_roundoff_range by (intro one_le_power) simp_all
    ultimately show "0 \<le> (1 + ?u) ^ K - (1 - ?u) ^ K" by simp
  qed
  finally have d: "\<bar>Q - M\<bar> \<le> 65536 * (3 * of_nat K * ?u)" .
  have "\<bar>round_binary64 (Q - M)\<bar> \<le> \<bar>round_binary64 (Q - M) - (Q - M)\<bar> + \<bar>Q - M\<bar>"
    by simp
  also have "\<dots> \<le> ?u * \<bar>Q - M\<bar> + \<bar>Q - M\<bar>"
    using round_binary64_error [of "Q - M"] by simp
  also have "\<dots> = (1 + ?u) * \<bar>Q - M\<bar>"
    by (simp add: algebra_simps)
  also have "\<dots> \<le> 2 * (65536 * (3 * of_nat K * ?u))"
    using d unit_roundoff_range by (intro mult_mono) simp_all
  also have "\<dots> = of_nat K * (3 / 2 ^ 36)"
    by (simp add: unit_roundoff_def)
  finally show ?thesis
    by (simp add: v K_def)
qed


lemma accumulate_exact:
  "accumulate (\<lambda>x. x) ps (s, q) =
     (s + sum_list (map (gray (\<lambda>x. x)) ps),
      q + sum_list (map (\<lambda>p. gray (\<lambda>x. x) p * gray (\<lambda>x. x) p) ps))"
  by (induction ps arbitrary: s q) (simp_all add: Let_def algebra_simps)

text \<open>
  C7, as stated, fails in the arithmetic of the program: a 5 by 5 video has a centre box of
  3 pixels, and for three pixels of colour (1, 1, 1) the computed variance is \<open>- 2^-53\<close>.
\<close>

theorem C7_uniform_variance_not_zero:
  "boxW round_binary64 5 * boxH round_binary64 5 = 3 \<and>
   variance round_binary64 3 (replicate 3 (1, 1, 1, 255)) = - (1 / 2 ^ 53) \<and>
   variance round_binary64 3 (replicate 3 (1, 1, 1, 255)) \<noteq> 0"
proof -
  have b: "boxW round_binary64 5 * boxH round_binary64 5 = 3"
    by code_simp
  have v: "variance round_binary64 3 (replicate 3 (1, 1, 1, 255)) = - (1 / 2 ^ 53)"
    by code_simp
  show ?thesis using b v by simp
qed

text \<open>
  C7, amended. In exact arithmetic the luma of a pixel is \<open>0.299 R + 0.587 G + 0.114 B\<close>, the
  one-pass result is the mean of the squares minus the square of the mean, and a region of
  one colour has variance 0. As the program computes it, with every operation rounded to
  binary64, the variance of a region of one colour with at most \<open>2^32\<close> pixels is at most
  \<open>(2 len + 3) * 3 / 2^36\<close> in absolute value, so such a region never exceeds the cutoff.
\<close>

theorem C7_luma_variance:
  assumes "0 < len" and "len \<le> 2 ^ 32"
  shows "gray (\<lambda>x. x) (r, g, b, a) =
           299 / 1000 * byte_value r + 587 / 1000 * byte_value g + 114 / 1000 * byte_value b \<and>
         variance (\<lambda>x. x) len pixels =
           sum_list (map (\<lambda>p. gray (\<lambda>x. x) p * gray (\<lambda>x. x) p) pixels) / of_nat len
           - (sum_list (map (gray (\<lambda>x. x)) pixels) / of_nat len)
             * (sum_list (map (gray (\<lambda>x. x)) pixels) / of_nat len) \<and>
         variance (\<lambda>x. x) len (replicate len p) = 0 \<and>
         \<bar>variance round_binary64 len (replicate len p)\<bar>
           \<le> of_nat (2 * len + 3) * (3 / 2 ^ 36) \<and>
         \<not> varianceThreshold < variance round_binary64 len (replicate len p)"
proof -
  have luma: "gray (\<lambda>x. x) (r, g, b, a) =
      299 / 1000 * byte_value r + 587 / 1000 * byte_value g + 114 / 1000 * byte_value b"
    by (simp add: gray_def)
  have one_pass: "variance (\<lambda>x. x) len pixels =
      sum_list (map (\<lambda>p. gray (\<lambda>x. x) p * gray (\<lambda>x. x) p) pixels) / of_nat len
      - (sum_list (map (gray (\<lambda>x. x)) pixels) / of_nat len)
        * (sum_list (map (gray (\<lambda>x. x)) pixels) / of_nat len)"
    by (simp add: variance_def accumulate_exact)
  have n0: "(of_nat len :: rat) \<noteq> 0" using assms(1) by simp
  have exact: "variance (\<lambda>x. x) len (replicate len p) = 0"
    using n0 by (simp add: variance_def accumulate_exact_uniform)
  note bound = uniform_variance_bound [OF assms, of p]
  have "2 * len + 3 \<le> 2 ^ 34" using assms(2) by simp
  then have "(of_nat (2 * len + 3) :: rat) \<le> of_nat (2 ^ 34)" by (simp only: of_nat_le_iff)
  then have "(of_nat (2 * len + 3) :: rat) * (3 / 2 ^ 36) \<le> 3 / 4" by simp
  with bound have "\<bar>variance round_binary64 len (replicate len p)\<bar> \<le> 3 / 4" by simp
  then have quiet: "\<not> varianceThreshold < variance round_binary64 len (replicate len p)"
    by (simp add: varianceThreshold_def abs_le_iff)
  from luma one_pass exact bound quiet show ?thesis by blast
qed

theorem C7_luma_variance_witness:
  "(0::nat) < 3 \<and> (3::nat) \<le> 2 ^ 32 \<and>
   variance (\<lambda>x. x) 3 (replicate 3 (1, 1, 1, 255)) = 0 \<and>
   \<bar>variance round_binary64 3 (replicate 3 (1, 1, 1, 255))\<bar> \<le> of_nat (2 * 3 + 3) * (3 / 2 ^ 36) \<and>
   \<not> varianceThreshold < variance round_binary64 3 (replicate 3 (1, 1, 1, 255))"
proof -
  have h1: "(0::nat) < 3" by simp
  have h2: "(3::nat) \<le> 2 ^ 32" by simp
  show ?thesis
    using h1 h2 C7_luma_variance [OF h1 h2, of 1 1 1 255 "[]" "(1, 1, 1, 255)"] by blast
qed

section \<open>Properties of the event system\<close>

subsection \<open>Projections\<close>

lemma emit_simps [simp]:
  "app (emit es s) = app s" "jobs (emit es s) = jobs s" "next_job (emit es s) = next_job s"
  "clock (emit es s) = clock s" "loops (emit es s) = loops s"
  "effect_loop (emit es s) = effect_loop s"
  "journal (emit es s) = journal s @ map (Pair (clock s)) es"
  by (simp_all add: emit_def)

lemma set_phase_simps [simp]:
  "app (set_phase i ph s) = app s" "jobs (set_phase i ph s) = jobs s"
  "next_job (set_phase i ph s) = next_job s" "clock (set_phase i ph s) = clock s"
  "journal (set_phase i ph s) = journal s" "effect_loop (set_phase i ph s) = effect_loop s"
  "length (loops (set_phase i ph s)) = length (loops s)"
  by (simp_all add: set_phase_def)

lemma seen_worker_set_phase [simp]:
  "map seen_worker (loops (set_phase i ph s)) = map seen_worker (loops s)"
  by (simp add: set_phase_def list_eq_iff_nth_eq nth_list_update)

lemma phase_set_phase:
  "i < length (loops s) \<Longrightarrow> phase (loops (set_phase i ph s) ! i) = ph"
  by (simp add: set_phase_def)

lemma commit_simps [simp]:
  "app (commit old s) = app s" "jobs (commit old s) = jobs s"
  "next_job (commit old s) = next_job s" "clock (commit old s) = clock s"
  "journal (commit old s) = journal s"
  by (simp_all add: commit_def run_effect_def cleanup_def split: option.splits)

lemma capturePhoto_simps [simp]:
  "processing (snd (capturePhoto vid st)) = processing st"
  "ocrText (snd (capturePhoto vid st)) = ocrText st"
  "worker (snd (capturePhoto vid st)) = worker st"
  "autoCapture (snd (capturePhoto vid st)) = autoCapture st"
  "lastCaptureDataUrl (snd (capturePhoto vid st)) =
     (case vid of None \<Rightarrow> lastCaptureDataUrl st | Some v \<Rightarrow> Some (jpeg v))"
  "fst (capturePhoto vid st) = map_option jpeg vid"
  by (simp_all add: capturePhoto_def split: option.splits)

lemma request_ready:
  "app (request who (Some w) vid s) =
     (snd (capturePhoto vid (app s)))\<lparr>processing := True, ocrText := ''''\<rparr>"
  "jobs (request who (Some w) vid s) = jobs s @ [(next_job s, who)]"
  "next_job (request who (Some w) vid s) = Suc (next_job s)"
  "journal (request who (Some w) vid s) =
     journal s @ map (Pair (clock s))
       ((case vid of None \<Rightarrow> [] | Some v \<Rightarrow> [Snapshot who (jpeg v)])
        @ [Recognize who (next_job s) (map_option jpeg vid)])"
  by (simp_all add: request_def runOcr_begin_def capturePhoto_def Let_def split: option.splits)

lemma request_not_ready:
  "app (request who None vid s) = snd (capturePhoto vid (app s))"
  "jobs (request who None vid s) = jobs s"
  "next_job (request who None vid s) = next_job s"
  "journal (request who None vid s) =
     journal s @ map (Pair (clock s))
       ((case vid of None \<Rightarrow> [] | Some v \<Rightarrow> [Snapshot who (jpeg v)])
        @ [Alert EngineNotReadyNotice])"
  by (simp_all add: request_def runOcr_begin_def capturePhoto_def Let_def split: option.splits)

lemma request_simps [simp]:
  "clock (request who w vid s) = clock s" "loops (request who w vid s) = loops s"
  "effect_loop (request who w vid s) = effect_loop s"
  by (simp_all add: request_def Let_def split: option.splits prod.splits)

lemma settle_pending:
  assumes "map_of (jobs s) j = Some who"
  shows "app (settle j out s) = runOcr_settle out (app s)"
    and "journal (settle j out s) = journal s @ map (Pair (clock s)) (settle_effects out)"
    and "jobs (settle j out s) = filter (\<lambda>(k, _). k \<noteq> j) (jobs s)"
    and "next_job (settle j out s) = next_job s"
    and "clock (settle j out s) = clock s"
  using assms by (simp_all add: settle_def Let_def split: origin.splits)

lemma step_simps [simp]:
  "app (step e s) = app (handle e s)" "jobs (step e s) = jobs (handle e s)"
  "next_job (step e s) = next_job (handle e s)" "clock (step e s) = clock (handle e s)"
  "journal (step e s) = journal (handle e s)"
  by (simp_all add: step_def)


lemma click_ready:
  assumes "worker (app s) = Some w"
  shows "app (step (Click vid) s) =
           (snd (capturePhoto vid (app s)))\<lparr>processing := True, ocrText := []\<rparr>"
    and "jobs (step (Click vid) s) = jobs s @ [(next_job s, Manual)]"
    and "next_job (step (Click vid) s) = Suc (next_job s)"
    and "clock (step (Click vid) s) = clock s"
    and "journal (step (Click vid) s) =
           journal s @ map (Pair (clock s))
             ((case vid of None \<Rightarrow> [] | Some v \<Rightarrow> [Snapshot Manual (jpeg v)])
              @ [Recognize Manual (next_job s) (map_option jpeg vid)])"
  using assms by (simp_all add: request_ready)

lemma pending_after_append: "\<exists>who. map_of (js @ [(n, x)]) n = Some who"
  by (cases "map_of js n") (simp_all add: map_add_def)

lemma settle_step:
  assumes "map_of (jobs s) j = Some who"
  shows "app (step (Settle j out) s) = runOcr_settle out (app s)"
    and "journal (step (Settle j out) s) = journal s @ map (Pair (clock s)) (settle_effects out)"
    and "jobs (step (Settle j out) s) = filter (\<lambda>(k, _). k \<noteq> j) (jobs s)"
    and "next_job (step (Settle j out) s) = next_job s"
    and "clock (step (Settle j out) s) = clock s"
  using assms by (simp_all add: settle_pending)

lemma map_of_filter_out: "map_of (filter (\<lambda>(k, _). k \<noteq> j) js) j = None"
  by (induction js) auto

lemmas sys_defs = step_def commit_def deps_def run_effect_def cleanup_def check_def tick_def
  settle_def timer_fires_def request_def emit_def set_phase_def capturePhoto_def runOcr_begin_def
  runOcr_settle_def settle_effects_def initial_def Let_def

lemma frame_simps:
  "jpeg text_frame = ''page''" "jpeg faint_frame = ''wall''"
  "boxPixels text_frame = [(0, 0, 0, 255), (60, 60, 60, 255)]"
  "boxPixels faint_frame = [(0, 0, 0, 255), (40, 40, 40, 255)]"
  by (simp_all add: text_frame_def faint_frame_def)

subsection \<open>Closures\<close>

lemma check_trigger:
  assumes "i < length (loops s)" and "phase (loops s ! i) = AwaitFrame"
    and "sampler round_binary64 varianceThreshold (seen_processing (loops s ! i)) vid = Trigger"
  shows "check i vid s =
           set_phase i
             (case seen_worker (loops s ! i) of
                None \<Rightarrow> AwaitTimer (clock s + 1500)
              | Some _ \<Rightarrow> AwaitOcr (next_job s))
             (request (Auto i) (seen_worker (loops s ! i)) vid s)"
  using assms by (simp add: check_def Let_def)

lemma check_seen_workers:
  "map seen_worker (loops (check i vid s)) = map seen_worker (loops s)"
  by (simp add: check_def Let_def split: sample.splits option.splits)

lemma tick_seen_workers:
  "map seen_worker (loops (tick ids vid s)) = map seen_worker (loops s)"
  unfolding tick_def by (induction ids arbitrary: s) (simp_all add: check_seen_workers)

lemma handle_seen_workers:
  "map seen_worker (loops (handle e s)) = map seen_worker (loops s)"
  by (cases e)
     (simp_all add: check_seen_workers tick_seen_workers settle_def timer_fires_def Let_def
        split: option.splits origin.splits phase.splits)

lemma check_worker: "worker (app (check i vid s)) = worker (app s)"
  by (auto simp: check_def request_def runOcr_begin_def capturePhoto_def Let_def
      split: sample.splits option.splits prod.splits)

lemma tick_worker: "worker (app (tick ids vid s)) = worker (app s)"
  unfolding tick_def by (induction ids arbitrary: s) (simp_all add: check_worker)

lemma handle_worker:
  "worker (app (handle e s)) = None \<Longrightarrow> worker (app s) = None"
  by (cases e)
     (auto simp: check_worker tick_worker settle_def timer_fires_def request_def
        runOcr_begin_def runOcr_settle_def capturePhoto_def Let_def
        split: option.splits origin.splits phase.splits ocr_outcome.splits
          if_splits prod.splits)

lemma seen_worker_image_set_phase [simp]:
  "seen_worker ` set (loops (set_phase i ph s)) = seen_worker ` set (loops s)"
  using seen_worker_set_phase [of i ph s] by (simp only: set_map [symmetric])

lemma commit_seen_workers:
  "set (map seen_worker (loops (commit old s))) \<subseteq>
     set (map seen_worker (loops s)) \<union> {worker (app s)}"
  by (auto simp: commit_def run_effect_def cleanup_def split: option.splits)

lemma step_seen_workers:
  assumes "worker (app s) = None \<longrightarrow> set (map seen_worker (loops s)) \<subseteq> {None}"
  shows "worker (app (step e s)) = None \<longrightarrow> set (map seen_worker (loops (step e s))) \<subseteq> {None}"
proof
  assume n: "worker (app (step e s)) = None"
  then have "worker (app (handle e s)) = None" by simp
  then have "worker (app s) = None" by (rule handle_worker)
  with assms have "set (map seen_worker (loops s)) \<subseteq> {None}" by simp
  then have "set (map seen_worker (loops (handle e s))) \<subseteq> {None}"
    by (simp only: handle_seen_workers)
  moreover have "set (map seen_worker (loops (step e s))) \<subseteq>
     set (map seen_worker (loops (handle e s))) \<union> {worker (app (handle e s))}"
    unfolding step_def by (rule commit_seen_workers)
  ultimately show "set (map seen_worker (loops (step e s))) \<subseteq> {None}"
    using \<open>worker (app (handle e s)) = None\<close> by blast
qed

lemma run_seen_workers:
  assumes "worker (app s) = None \<longrightarrow> set (map seen_worker (loops s)) \<subseteq> {None}"
  shows "worker (app (run es s)) = None \<longrightarrow> set (map seen_worker (loops (run es s))) \<subseteq> {None}"
  using assms
proof (induction es arbitrary: s)
  case Nil
  then show ?case by simp
next
  case (Cons e es)
  show ?case
    unfolding run.simps by (rule Cons.IH, rule step_seen_workers, rule Cons.prems)
qed

lemma reachable_not_ready:
  assumes "worker (app (run es initial)) = None" and "i < length (loops (run es initial))"
  shows "seen_worker (loops (run es initial) ! i) = None"
proof -
  have "worker (app initial) = None \<longrightarrow> set (map seen_worker (loops initial)) \<subseteq> {None}"
    by (simp add: initial_def)
  from run_seen_workers [OF this, of es] assms(1)
  have "set (map seen_worker (loops (run es initial))) \<subseteq> {None}" by (rule mp)
  moreover have "seen_worker (loops (run es initial) ! i) \<in> set (map seen_worker (loops (run es initial)))"
    using assms(2) by simp
  ultimately show ?thesis by blast
qed

subsection \<open>The flag and the text\<close>

lemma check_text_empty:
  assumes "processing (app s) \<longrightarrow> ocrText (app s) = []"
  shows "processing (app (check i vid s)) \<longrightarrow> ocrText (app (check i vid s)) = []"
  using assms
  by (auto simp: check_def request_def runOcr_begin_def capturePhoto_def Let_def
      split: sample.splits option.splits prod.splits)

lemma tick_text_empty:
  assumes "processing (app s) \<longrightarrow> ocrText (app s) = []"
  shows "processing (app (tick ids vid s)) \<longrightarrow> ocrText (app (tick ids vid s)) = []"
  using assms unfolding tick_def
proof (induction ids arbitrary: s)
  case Nil
  then show ?case by simp
next
  case (Cons i ids)
  show ?case
    unfolding fold_simps by (rule Cons.IH, rule check_text_empty, rule Cons.prems)
qed

lemma handle_text_empty:
  assumes "processing (app s) \<longrightarrow> ocrText (app s) = []"
  shows "processing (app (handle e s)) \<longrightarrow> ocrText (app (handle e s)) = []"
proof (cases e)
  case (Frame i vid)
  then show ?thesis using check_text_empty [OF assms] by simp
next
  case (Tick ids vid)
  then show ?thesis using tick_text_empty [OF assms] by simp
qed (use assms in \<open>auto simp: settle_def timer_fires_def request_def runOcr_begin_def
        runOcr_settle_def capturePhoto_def Let_def
        split: option.splits origin.splits phase.splits ocr_outcome.splits
          if_splits prod.splits\<close>)

lemma check_keeps_empty:
  "ocrText (app s) = [] \<Longrightarrow> ocrText (app (check i vid s)) = []"
  by (auto simp: check_def request_def runOcr_begin_def capturePhoto_def Let_def
      split: sample.splits option.splits prod.splits)

lemma tick_keeps_empty:
  "ocrText (app s) = [] \<Longrightarrow> ocrText (app (tick ids vid s)) = []"
  unfolding tick_def by (induction ids arbitrary: s) (simp_all add: check_keeps_empty)

lemma handle_keeps_empty:
  assumes "ocrText (app s) = []" and "\<not> resolves e"
  shows "ocrText (app (handle e s)) = []"
proof (cases e)
  case (Frame i vid)
  then show ?thesis using check_keeps_empty [OF assms(1)] by simp
next
  case (Tick ids vid)
  then show ?thesis using tick_keeps_empty [OF assms(1)] by simp
next
  case (Settle j out)
  with assms(2) have "out = Rejected" by (cases out) simp_all
  with Settle assms(1) show ?thesis
    by (simp add: settle_def runOcr_settle_def Let_def split: option.splits origin.splits)
qed (use assms(1) in \<open>auto simp: timer_fires_def request_def runOcr_begin_def
        capturePhoto_def Let_def split: option.splits phase.splits prod.splits\<close>)

lemma run_keeps_empty:
  assumes "ocrText (app s) = []" and "\<forall>e\<in>set es. \<not> resolves e"
  shows "ocrText (app (run es s)) = []"
  using assms
proof (induction es arbitrary: s)
  case Nil
  then show ?case by simp
next
  case (Cons e es)
  have "ocrText (app (step e s)) = []"
    using handle_keeps_empty [of s e] Cons.prems by simp
  moreover have "\<forall>e\<in>set es. \<not> resolves e"
    using Cons.prems(2) by simp
  ultimately show ?case
    unfolding run.simps by (rule Cons.IH)
qed

lemma run_text_empty:
  assumes "processing (app s) \<longrightarrow> ocrText (app s) = []"
  shows "processing (app (run es s)) \<longrightarrow> ocrText (app (run es s)) = []"
  using assms
proof (induction es arbitrary: s)
  case Nil
  then show ?case by simp
next
  case (Cons e es)
  have "processing (app (step e s)) \<longrightarrow> ocrText (app (step e s)) = []"
    using handle_text_empty [OF Cons.prems] by simp
  then show ?case
    unfolding run.simps by (rule Cons.IH)
qed


lemma frame_ready:
  assumes "i < length (loops s)" and "phase (loops s ! i) = AwaitFrame"
    and "sampler round_binary64 varianceThreshold (seen_processing (loops s ! i)) vid = Trigger"
    and "seen_worker (loops s ! i) = Some w"
  shows "app (step (Frame i vid) s) =
           (snd (capturePhoto vid (app s)))\<lparr>processing := True, ocrText := []\<rparr>"
    and "jobs (step (Frame i vid) s) = jobs s @ [(next_job s, Auto i)]"
    and "next_job (step (Frame i vid) s) = Suc (next_job s)"
    and "clock (step (Frame i vid) s) = clock s"
    and "journal (step (Frame i vid) s) =
           journal s @ map (Pair (clock s))
             ((case vid of None \<Rightarrow> [] | Some v \<Rightarrow> [Snapshot (Auto i) (jpeg v)])
              @ [Recognize (Auto i) (next_job s) (map_option jpeg vid)])"
  using assms by (simp_all add: check_trigger request_ready)

lemma frame_not_ready:
  assumes "i < length (loops s)" and "phase (loops s ! i) = AwaitFrame"
    and "sampler round_binary64 varianceThreshold (seen_processing (loops s ! i)) vid = Trigger"
    and "seen_worker (loops s ! i) = None"
  shows "app (step (Frame i vid) s) = snd (capturePhoto vid (app s))"
    and "jobs (step (Frame i vid) s) = jobs s"
    and "next_job (step (Frame i vid) s) = next_job s"
    and "clock (step (Frame i vid) s) = clock s"
    and "journal (step (Frame i vid) s) =
           journal s @ map (Pair (clock s))
             ((case vid of None \<Rightarrow> [] | Some v \<Rightarrow> [Snapshot (Auto i) (jpeg v)])
              @ [Alert EngineNotReadyNotice])"
    and "phase (loops (step (Frame i vid) s) ! i) = AwaitTimer (clock s + 1500)"
  using assms
  by (simp_all add: check_trigger request_not_ready step_def commit_def deps_def
      phase_set_phase)





text \<open>
  C8, as stated, fails: the confidence is written to the console and to no state cell. Two
  recognitions that differ in the confidence only leave the same component state.
\<close>

theorem C8_confidence_not_stored:
  "app (run [WorkerReady, Click (Some text_frame), Settle 0 (Resolved ''HELLO'' (9 / 10))] initial)
     = app (run [WorkerReady, Click (Some text_frame), Settle 0 (Resolved ''HELLO'' (1 / 10))] initial)
   \<and> (9 / 10 :: rat) \<noteq> 1 / 10"
  by (simp add: sys_defs)

text \<open>
  C8, amended. When a recognition call resolves, from whichever request, the stored text is
  the recognised text, \<open>processing\<close> is false, no other state cell changes, and the confidence
  goes to the console only. In particular a click with a ready engine followed by a
  recognition that succeeds ends so, with the snapshot of the click as the last captured
  image.
\<close>

theorem C8_success_postcondition:
  "(map_of (jobs s) j = Some who \<longrightarrow>
      (let s' = step (Settle j (Resolved text confidence)) s
       in app s' = (app s)\<lparr>ocrText := text, processing := False\<rparr> \<and>
          journal s' = journal s @ [(clock s, ConsoleLog confidence)] \<and>
          map_of (jobs s') j = None)) \<and>
   (worker (app s) \<noteq> None \<longrightarrow>
      (let s1 = step (Click vid) s;
           s2 = step (Settle (next_job s) (Resolved text confidence)) s1
       in processing (app s1) \<and>
          lastCaptureDataUrl (app s1) =
            (case vid of None \<Rightarrow> lastCaptureDataUrl (app s) | Some v \<Rightarrow> Some (jpeg v)) \<and>
          ocrText (app s2) = text \<and> \<not> processing (app s2) \<and>
          journal s2 = journal s1 @ [(clock s, ConsoleLog confidence)] \<and>
          app s2 = (app s1)\<lparr>ocrText := text, processing := False\<rparr>))"
proof (intro conjI impI)
  assume p: "map_of (jobs s) j = Some who"
  show "let s' = step (Settle j (Resolved text confidence)) s
       in app s' = (app s)\<lparr>ocrText := text, processing := False\<rparr> \<and>
          journal s' = journal s @ [(clock s, ConsoleLog confidence)] \<and>
          map_of (jobs s') j = None"
    by (simp add: Let_def settle_pending [OF p] runOcr_settle_def settle_effects_def
        map_of_filter_out)
next
  assume "worker (app s) \<noteq> None"
  then obtain w where w: "worker (app s) = Some w" by auto
  define s1 where "s1 = step (Click vid) s"
  define s2 where "s2 = step (Settle (next_job s) (Resolved text confidence)) s1"
  note c1 = click_ready [OF w, of vid, folded s1_def]
  have "\<exists>who. map_of (jobs s1) (next_job s) = Some who"
    unfolding c1(2) by (rule pending_after_append)
  then obtain who1 where p1: "map_of (jobs s1) (next_job s) = Some who1" ..
  note t2 = settle_step [OF p1, of "Resolved text confidence", folded s2_def]
  have "processing (app s1) \<and>
            lastCaptureDataUrl (app s1) =
              (case vid of None \<Rightarrow> lastCaptureDataUrl (app s) | Some v \<Rightarrow> Some (jpeg v)) \<and>
            ocrText (app s2) = text \<and> \<not> processing (app s2) \<and>
            journal s2 = journal s1 @ [(clock s, ConsoleLog confidence)] \<and>
            app s2 = (app s1)\<lparr>ocrText := text, processing := False\<rparr>"
    by (simp add: c1 t2 runOcr_settle_def settle_effects_def)
  then show "let s1 = step (Click vid) s;
           s2 = step (Settle (next_job s) (Resolved text confidence)) s1
       in processing (app s1) \<and>
          lastCaptureDataUrl (app s1) =
            (case vid of None \<Rightarrow> lastCaptureDataUrl (app s) | Some v \<Rightarrow> Some (jpeg v)) \<and>
          ocrText (app s2) = text \<and> \<not> processing (app s2) \<and>
          journal s2 = journal s1 @ [(clock s, ConsoleLog confidence)] \<and>
          app s2 = (app s1)\<lparr>ocrText := text, processing := False\<rparr>"
    unfolding s1_def s2_def Let_def .
qed

theorem C8_success_postcondition_witness:
  "worker (app (run [WorkerReady] initial)) \<noteq> None \<and>
   ocrText (app (step (Settle 0 (Resolved ''HELLO'' (9 / 10)))
      (step (Click (Some text_frame)) (run [WorkerReady] initial)))) = ''HELLO'' \<and>
   \<not> processing (app (step (Settle 0 (Resolved ''HELLO'' (9 / 10)))
      (step (Click (Some text_frame)) (run [WorkerReady] initial)))) \<and>
   map_of (jobs (run [WorkerReady, ToggleAuto, Frame 0 (Some text_frame)] initial)) 0 =
     Some (Auto 0) \<and>
   ocrText (app (step (Settle 0 (Resolved ''HELLO'' (9 / 10)))
      (run [WorkerReady, ToggleAuto, Frame 0 (Some text_frame)] initial))) = ''HELLO''"
proof -
  let ?s = "run [WorkerReady] initial"
  let ?a = "run [WorkerReady, ToggleAuto, Frame 0 (Some text_frame)] initial"
  have h: "worker (app ?s) \<noteq> None"
    by (simp add: sys_defs)
  have n: "next_job ?s = 0"
    by (simp add: sys_defs)
  have p: "map_of (jobs ?a) 0 = Some (Auto 0)"
    by (simp add: sys_defs sampler_text)
  note t = C8_success_postcondition [of ?s _ _ "''HELLO''" "9 / 10" "Some text_frame"]
  note u = C8_success_postcondition [of ?a 0 "Auto 0" "''HELLO''" "9 / 10"]
  have c1: "ocrText (app (step (Settle 0 (Resolved ''HELLO'' (9 / 10)))
      (step (Click (Some text_frame)) ?s))) = ''HELLO'' \<and>
   \<not> processing (app (step (Settle 0 (Resolved ''HELLO'' (9 / 10)))
      (step (Click (Some text_frame)) ?s)))"
    using t h n by (simp add: Let_def)
  have e: "app (step (Settle 0 (Resolved ''HELLO'' (9 / 10))) ?a) =
      (app ?a)\<lparr>ocrText := ''HELLO'', processing := False\<rparr>"
    using u p unfolding Let_def by blast
  have c2: "ocrText (app (step (Settle 0 (Resolved ''HELLO'' (9 / 10))) ?a)) = ''HELLO''"
    unfolding e by simp
  from h p c1 c2 show ?thesis by blast
qed

text \<open>
  C10, as stated, fails when two calls overlap: after two clicks, job 0 resolves with the
  text A while job 1, of the later capture, is in flight; the stored text is then A with
  \<open>processing\<close> false, and it stays A when job 1 fails.
\<close>

theorem C10_text_of_older_call_while_in_flight:
  "(let s = run [WorkerReady, Click (Some text_frame), Click (Some faint_frame),
                 Settle 0 (Resolved ''A'' 1)] initial
    in jobs s = [(1, Manual)] \<and> \<not> processing (app s) \<and> ocrText (app s) = ''A'' \<and>
       lastCaptureDataUrl (app s) = Some ''wall'' \<and>
       ocrText (app (step (Settle 1 Rejected) s)) = ''A'')"
  by (simp add: sys_defs frame_simps)

text \<open>
  C10, amended. A run of \<^verbatim>\<open>runOcr\<close> with a ready engine, from the button or from a
  \<^verbatim>\<open>check\<close> loop, empties the stored text before the recognition call is awaited, and the
  text stays empty until some recognition call resolves. After a call that settles next
  the text is the new text or empty, never the earlier one, and in every reachable state
  of the component the stored text is empty while \<open>processing\<close> is set.
\<close>

theorem C10_text_empty_while_recognizing:
  "(worker (app s) \<noteq> None \<longrightarrow>
      processing (app (step (Click vid) s)) \<and> ocrText (app (step (Click vid) s)) = [] \<and>
      ocrText (app (step (Settle (next_job s) out) (step (Click vid) s))) =
        (case out of Resolved text confidence \<Rightarrow> text | Rejected \<Rightarrow> [])) \<and>
   (i < length (loops s) \<and> phase (loops s ! i) = AwaitFrame \<and>
    seen_worker (loops s ! i) \<noteq> None \<and>
    sampler round_binary64 varianceThreshold (seen_processing (loops s ! i)) vid' = Trigger \<longrightarrow>
      processing (app (step (Frame i vid') s)) \<and> ocrText (app (step (Frame i vid') s)) = [] \<and>
      ocrText (app (step (Settle (next_job s) out) (step (Frame i vid') s))) =
        (case out of Resolved text confidence \<Rightarrow> text | Rejected \<Rightarrow> [])) \<and>
   (processing (app (run es initial)) \<longrightarrow> ocrText (app (run es initial)) = []) \<and>
   (worker (app s) \<noteq> None \<and> (\<forall>e\<in>set es'. \<not> resolves e) \<longrightarrow>
      ocrText (app (run es' (step (Click vid) s))) = []) \<and>
   (i < length (loops s) \<and> phase (loops s ! i) = AwaitFrame \<and>
    seen_worker (loops s ! i) \<noteq> None \<and>
    sampler round_binary64 varianceThreshold (seen_processing (loops s ! i)) vid' = Trigger \<and>
    (\<forall>e\<in>set es'. \<not> resolves e) \<longrightarrow>
      ocrText (app (run es' (step (Frame i vid') s))) = [])"
proof (intro conjI impI)
  assume "worker (app s) \<noteq> None"
  then obtain w where w: "worker (app s) = Some w" by auto
  define s1 where "s1 = step (Click vid) s"
  note c1 = click_ready [OF w, of vid, folded s1_def]
  have "\<exists>who. map_of (jobs s1) (next_job s) = Some who"
    unfolding c1(2) by (rule pending_after_append)
  then obtain who1 where p1: "map_of (jobs s1) (next_job s) = Some who1" ..
  note t2 = settle_pending [OF p1, of out]
  show "processing (app (step (Click vid) s))" "ocrText (app (step (Click vid) s)) = []"
    unfolding s1_def [symmetric] by (simp_all add: c1)
  show "ocrText (app (step (Settle (next_job s) out) (step (Click vid) s))) =
        (case out of Resolved text confidence \<Rightarrow> text | Rejected \<Rightarrow> [])"
    unfolding s1_def [symmetric]
    by (simp add: t2 c1 runOcr_settle_def split: ocr_outcome.splits)
next
  assume a: "i < length (loops s) \<and> phase (loops s ! i) = AwaitFrame \<and>
    seen_worker (loops s ! i) \<noteq> None \<and>
    sampler round_binary64 varianceThreshold (seen_processing (loops s ! i)) vid' = Trigger"
  then obtain w where w: "seen_worker (loops s ! i) = Some w" by auto
  define s1 where "s1 = step (Frame i vid') s"
  from a w have f1: "app s1 = (snd (capturePhoto vid' (app s)))\<lparr>processing := True, ocrText := []\<rparr>"
    and j1: "jobs s1 = jobs s @ [(next_job s, Auto i)]"
    unfolding s1_def by (simp_all only: frame_ready)
  have "\<exists>who. map_of (jobs s1) (next_job s) = Some who"
    unfolding j1 by (rule pending_after_append)
  then obtain who1 where p1: "map_of (jobs s1) (next_job s) = Some who1" ..
  note t2 = settle_pending [OF p1, of out]
  show "processing (app (step (Frame i vid') s))" "ocrText (app (step (Frame i vid') s)) = []"
    unfolding s1_def [symmetric] by (simp_all add: f1)
  show "ocrText (app (step (Settle (next_job s) out) (step (Frame i vid') s))) =
        (case out of Resolved text confidence \<Rightarrow> text | Rejected \<Rightarrow> [])"
    unfolding s1_def [symmetric]
    by (simp add: t2 f1 runOcr_settle_def split: ocr_outcome.splits)
next
  assume "processing (app (run es initial))"
  moreover have "processing (app initial) \<longrightarrow> ocrText (app initial) = []"
    by (simp add: initial_def)
  ultimately show "ocrText (app (run es initial)) = []"
    using run_text_empty by blast
next
  assume a: "worker (app s) \<noteq> None \<and> (\<forall>e\<in>set es'. \<not> resolves e)"
  then obtain w where w: "worker (app s) = Some w" by auto
  have "ocrText (app (step (Click vid) s)) = []"
    by (simp add: w request_ready)
  then show "ocrText (app (run es' (step (Click vid) s))) = []"
    using a by (intro run_keeps_empty) simp_all
next
  assume a: "i < length (loops s) \<and> phase (loops s ! i) = AwaitFrame \<and>
    seen_worker (loops s ! i) \<noteq> None \<and>
    sampler round_binary64 varianceThreshold (seen_processing (loops s ! i)) vid' = Trigger \<and>
    (\<forall>e\<in>set es'. \<not> resolves e)"
  then obtain w where w: "seen_worker (loops s ! i) = Some w" by auto
  from a w have "app (step (Frame i vid') s) =
      (snd (capturePhoto vid' (app s)))\<lparr>processing := True, ocrText := []\<rparr>"
    by (simp only: frame_ready)
  then have "ocrText (app (step (Frame i vid') s)) = []" by simp
  then show "ocrText (app (run es' (step (Frame i vid') s))) = []"
    using a by (intro run_keeps_empty) simp_all
qed

theorem C10_text_empty_while_recognizing_witness:
  "worker (app (run [WorkerReady, ToggleAuto, ClearText] initial)) \<noteq> None \<and>
   0 < length (loops (run [WorkerReady, ToggleAuto, ClearText] initial)) \<and>
   phase (loops (run [WorkerReady, ToggleAuto, ClearText] initial) ! 0) = AwaitFrame \<and>
   seen_worker (loops (run [WorkerReady, ToggleAuto, ClearText] initial) ! 0) \<noteq> None \<and>
   sampler round_binary64 varianceThreshold
     (seen_processing (loops (run [WorkerReady, ToggleAuto, ClearText] initial) ! 0))
     (Some text_frame) = Trigger \<and>
   processing (app (run [WorkerReady, Click (Some faint_frame), Settle 0 (Resolved ''OLD'' 1),
     Click (Some text_frame)] initial)) \<and>
   ocrText (app (run [WorkerReady, Click (Some faint_frame), Settle 0 (Resolved ''OLD'' 1),
     Click (Some text_frame)] initial)) = [] \<and>
   ocrText (app (step (Click (Some text_frame)) (run [WorkerReady, ToggleAuto, ClearText] initial))) = [] \<and>
   ocrText (app (step (Frame 0 (Some text_frame)) (run [WorkerReady, ToggleAuto, ClearText] initial))) = [] \<and>
   ocrText (app (run [Elapse 100, Settle 0 Rejected]
     (step (Click (Some text_frame)) (run [WorkerReady, ToggleAuto, ClearText] initial)))) = [] \<and>
   ocrText (app (run [Elapse 100, Settle 0 Rejected]
     (step (Frame 0 (Some text_frame)) (run [WorkerReady, ToggleAuto, ClearText] initial)))) = []"
proof -
  let ?s = "run [WorkerReady, ToggleAuto, ClearText] initial"
  let ?es = "[WorkerReady, Click (Some faint_frame), Settle 0 (Resolved ''OLD'' 1),
     Click (Some text_frame)]"
  have h1: "worker (app ?s) \<noteq> None"
    by (simp add: sys_defs)
  have h2: "0 < length (loops ?s) \<and> phase (loops ?s ! 0) = AwaitFrame \<and>
    seen_worker (loops ?s ! 0) \<noteq> None \<and>
    sampler round_binary64 varianceThreshold (seen_processing (loops ?s ! 0))
      (Some text_frame) = Trigger"
    by (simp add: sys_defs sampler_text)
  have h3: "processing (app (run ?es initial))"
    by (simp add: sys_defs)
  have h4: "\<forall>e\<in>set [Elapse 100, Settle 0 Rejected]. \<not> resolves e"
    by simp
  from C10_text_empty_while_recognizing [of ?s "Some text_frame" Rejected 0 "Some text_frame" ?es
      "[Elapse 100, Settle 0 Rejected]"]
    h1 h2 h3 h4
  have "ocrText (app (step (Click (Some text_frame)) ?s)) = [] \<and>
        ocrText (app (step (Frame 0 (Some text_frame)) ?s)) = [] \<and>
        ocrText (app (run ?es initial)) = [] \<and>
        ocrText (app (run [Elapse 100, Settle 0 Rejected]
          (step (Click (Some text_frame)) ?s))) = [] \<and>
        ocrText (app (run [Elapse 100, Settle 0 Rejected]
          (step (Frame 0 (Some text_frame)) ?s))) = []"
    by blast
  with h1 h2 h3 show ?thesis by blast
qed

text \<open>
  C4, as stated, fails: \<^verbatim>\<open>onCaptureClick\<close> and \<^verbatim>\<open>check\<close> call \<^verbatim>\<open>capturePhoto\<close> before
  \<^verbatim>\<open>runOcr\<close> looks at the worker. A click before the engine is ready replaces the last
  captured image.
\<close>

theorem C4_capture_before_engine_check:
  "worker (app initial) = None \<and> lastCaptureDataUrl (app initial) = None \<and>
   lastCaptureDataUrl (app (step (Click (Some text_frame)) initial)) = Some ''page'' \<and>
   journal (step (Click (Some text_frame)) initial) =
     [(0, Snapshot Manual ''page''), (0, Alert EngineNotReadyNotice)]"
  by (simp add: sys_defs frame_simps)

text \<open>
  C4, amended. A capture request made before the engine is ready, from the button or from a
  \<^verbatim>\<open>check\<close> loop, takes the snapshot (the last captured image becomes the new frame when
  there is a video element), then shows the notice and stops: no \<^verbatim>\<open>recognize\<close> call is
  issued or queued, and \<open>processing\<close> and the text are unchanged. The loop then waits
  1500 ms.
\<close>

theorem C4_engine_not_ready:
  assumes "worker (app (run es initial)) = None"
  shows "(let s = run es initial; s' = step (Click vid) s
          in journal s' = journal s @ map (Pair (clock s))
               ((case vid of None \<Rightarrow> [] | Some v \<Rightarrow> [Snapshot Manual (jpeg v)])
                @ [Alert EngineNotReadyNotice]) \<and>
             jobs s' = jobs s \<and> processing (app s') = processing (app s) \<and>
             ocrText (app s') = ocrText (app s) \<and>
             lastCaptureDataUrl (app s') =
               (case vid of None \<Rightarrow> lastCaptureDataUrl (app s) | Some v \<Rightarrow> Some (jpeg v))) \<and>
         (i < length (loops (run es initial)) \<and> phase (loops (run es initial) ! i) = AwaitFrame \<and>
          sampler round_binary64 varianceThreshold
            (seen_processing (loops (run es initial) ! i)) (Some v) = Trigger \<longrightarrow>
          (let s = run es initial; s' = step (Frame i (Some v)) s
           in journal s' = journal s @
                [(clock s, Snapshot (Auto i) (jpeg v)), (clock s, Alert EngineNotReadyNotice)] \<and>
              jobs s' = jobs s \<and> processing (app s') = processing (app s) \<and>
              ocrText (app s') = ocrText (app s) \<and>
              lastCaptureDataUrl (app s') = Some (jpeg v) \<and>
              phase (loops s' ! i) = AwaitTimer (clock s + 1500)))"
proof (intro conjI impI)
  show "let s = run es initial; s' = step (Click vid) s
          in journal s' = journal s @ map (Pair (clock s))
               ((case vid of None \<Rightarrow> [] | Some v \<Rightarrow> [Snapshot Manual (jpeg v)])
                @ [Alert EngineNotReadyNotice]) \<and>
             jobs s' = jobs s \<and> processing (app s') = processing (app s) \<and>
             ocrText (app s') = ocrText (app s) \<and>
             lastCaptureDataUrl (app s') =
               (case vid of None \<Rightarrow> lastCaptureDataUrl (app s) | Some v \<Rightarrow> Some (jpeg v))"
    using assms by (simp add: Let_def request_not_ready)
next
  assume a: "i < length (loops (run es initial)) \<and> phase (loops (run es initial) ! i) = AwaitFrame \<and>
          sampler round_binary64 varianceThreshold
            (seen_processing (loops (run es initial) ! i)) (Some v) = Trigger"
  then have n: "seen_worker (loops (run es initial) ! i) = None"
    using reachable_not_ready [OF assms] by blast
  from a n have f: "app (step (Frame i (Some v)) (run es initial)) =
        snd (capturePhoto (Some v) (app (run es initial)))"
    "jobs (step (Frame i (Some v)) (run es initial)) = jobs (run es initial)"
    "journal (step (Frame i (Some v)) (run es initial)) =
           journal (run es initial) @ map (Pair (clock (run es initial)))
             ((case Some v of None \<Rightarrow> [] | Some v \<Rightarrow> [Snapshot (Auto i) (jpeg v)])
              @ [Alert EngineNotReadyNotice])"
    "phase (loops (step (Frame i (Some v)) (run es initial)) ! i) =
       AwaitTimer (clock (run es initial) + 1500)"
    by (simp_all only: frame_not_ready)
  show "let s = run es initial; s' = step (Frame i (Some v)) s
           in journal s' = journal s @
                [(clock s, Snapshot (Auto i) (jpeg v)), (clock s, Alert EngineNotReadyNotice)] \<and>
              jobs s' = jobs s \<and> processing (app s') = processing (app s) \<and>
              ocrText (app s') = ocrText (app s) \<and>
              lastCaptureDataUrl (app s') = Some (jpeg v) \<and>
              phase (loops s' ! i) = AwaitTimer (clock s + 1500)"
    unfolding Let_def f by simp
qed

theorem C4_engine_not_ready_witness:
  "worker (app (run [ToggleAuto] initial)) = None \<and>
   0 < length (loops (run [ToggleAuto] initial)) \<and>
   phase (loops (run [ToggleAuto] initial) ! 0) = AwaitFrame \<and>
   sampler round_binary64 varianceThreshold
     (seen_processing (loops (run [ToggleAuto] initial) ! 0)) (Some text_frame) = Trigger \<and>
   journal (step (Frame 0 (Some text_frame)) (run [ToggleAuto] initial)) =
     journal (run [ToggleAuto] initial) @
       [(clock (run [ToggleAuto] initial), Snapshot (Auto 0) (jpeg text_frame)),
        (clock (run [ToggleAuto] initial), Alert EngineNotReadyNotice)] \<and>
   lastCaptureDataUrl (app (step (Click (Some text_frame)) (run [ToggleAuto] initial))) =
     Some (jpeg text_frame)"
proof -
  let ?s = "run [ToggleAuto] initial"
  have h1: "worker (app ?s) = None"
    by (simp add: sys_defs)
  have h2: "0 < length (loops ?s) \<and> phase (loops ?s ! 0) = AwaitFrame \<and>
    sampler round_binary64 varianceThreshold (seen_processing (loops ?s ! 0))
      (Some text_frame) = Trigger"
    by (simp add: sys_defs sampler_text)
  from C4_engine_not_ready [OF h1, of "Some text_frame" 0 text_frame] h2
  have "journal (step (Frame 0 (Some text_frame)) ?s) =
     journal ?s @ [(clock ?s, Snapshot (Auto 0) (jpeg text_frame)),
        (clock ?s, Alert EngineNotReadyNotice)] \<and>
     lastCaptureDataUrl (app (step (Click (Some text_frame)) ?s)) = Some (jpeg text_frame)"
    unfolding Let_def by simp
  with h1 h2 show ?thesis by blast
qed

text \<open>
  C1 at a failing input. Loop 0 triggers and is suspended inside \<^verbatim>\<open>runOcr\<close> while the
  effect is run again; it holds \<^verbatim>\<open>processing = false\<close> for ever. After its call settles,
  loop 2 captures and starts job 1 at 2016 ms. When the timer of loop 0 fires at 3500 ms,
  job 1 is in flight and \<open>processing\<close> is set; at the next frame the loop of the current
  effect stays quiet, and loop 0 captures and starts job 2.
\<close>

theorem C1_stale_loop_captures_while_processing:
  "(let s = run [WorkerReady, ToggleAuto, Frame 0 (Some text_frame), Elapse 2000,
                 Settle 0 (Resolved ''A'' 1), Elapse 16, Frame 2 (Some text_frame),
                 Elapse 1484, TimerFires 0, Elapse 16, Frame 3 (Some text_frame)] initial;
        s' = step (Frame 0 (Some text_frame)) s
    in processing (app s) \<and> jobs s = [(1, Auto 2)] \<and>
       seen_processing (loops s ! 0) = False \<and> phase (loops s ! 0) = AwaitFrame \<and>
       journal s' = journal s @
         [(3516, Snapshot (Auto 0) ''page''), (3516, Recognize (Auto 0) 2 (Some ''page''))] \<and>
       jobs s' = [(1, Auto 2), (2, Auto 0)])"
  by (simp add: sys_defs sampler_text frame_simps)

text \<open>
  C2 at a failing input. The recognition started by loop 0 settles at 3000 ms; this resets
  \<open>processing\<close>, the effect runs again and its new loop 2 captures on its first frame, at
  3016 ms, while loop 0 is the only one that waits 1500 ms.
\<close>

theorem C2_no_cooldown_after_completion:
  "journal (run [WorkerReady, ToggleAuto, Frame 0 (Some text_frame), Elapse 3000,
                 Settle 0 (Resolved ''A'' 1), Elapse 16, Frame 2 (Some text_frame)] initial) =
     [(0, Snapshot (Auto 0) ''page''), (0, Recognize (Auto 0) 0 (Some ''page'')),
      (3000, ConsoleLog 1),
      (3016, Snapshot (Auto 2) ''page''), (3016, Recognize (Auto 2) 1 (Some ''page''))]"
  by (simp add: sys_defs sampler_text frame_simps)

text \<open>
  C6 at a failing input. Auto-capture is switched off at 500 ms, while the call of loop 0
  is in flight; the call completes at 2000 ms and its text is stored. The clean-up cancelled
  nothing of loop 0, which, after its timer, schedules itself again, samples and captures at
  3516 ms with auto-capture off.
\<close>

theorem C6_loop_survives_disabling:
  "(let s = run [WorkerReady, ToggleAuto, Frame 0 (Some text_frame), Elapse 500, ToggleAuto,
                 Elapse 1500, Settle 0 (Resolved ''A'' 1), Elapse 1500, TimerFires 0,
                 Elapse 16] initial;
        s' = step (Frame 0 (Some text_frame)) s
    in \<not> autoCapture (app s) \<and> effect_loop s = None \<and> ocrText (app s) = ''A'' \<and>
       phase (loops s ! 0) = AwaitFrame \<and> \<not> autoCapture (app s') \<and>
       journal s' = journal s @
         [(3516, Snapshot (Auto 0) ''page''), (3516, Recognize (Auto 0) 1 (Some ''page''))])"
  by (simp add: sys_defs sampler_text frame_simps)

text \<open>
  C3 at a failing input. With the slider at its minimum 100 a frame of variance 400 does
  not trigger, and with the slider at its maximum 2000 a frame of variance 900 does: the
  cutoff is the constant 500, whatever the slider says.
\<close>

theorem C3_slider_not_used:
  "variance round_binary64 2 (boxPixels faint_frame) = 400 \<and>
   journal (run [WorkerReady, ToggleAuto, Slider 100, Frame 0 (Some faint_frame)] initial) = [] \<and>
   variance round_binary64 2 (boxPixels text_frame) = 900 \<and>
   journal (run [WorkerReady, ToggleAuto, Slider 2000, Frame 0 (Some text_frame)] initial) =
     [(0, Snapshot (Auto 0) ''page''), (0, Recognize (Auto 0) 0 (Some ''page''))]"
  by (simp add: sys_defs sampler_text sampler_faint variance_text variance_faint frame_simps)

text \<open>
  One refresh with two pending callbacks, both of loops that hold \<^verbatim>\<open>processing = false\<close>:
  when both run before the re-render, both capture; when the effect is run again after the
  first, its clean-up cancels the second.
\<close>

lemma tick_runs_both_callbacks:
  "(let s = run [WorkerReady, ToggleAuto, Frame 0 (Some text_frame), Elapse 1000,
                 Settle 0 (Resolved ''A'' 1), Elapse 1500, TimerFires 0, Elapse 16] initial
    in \<not> processing (app s) \<and>
       journal (step (Tick [0, 2] (Some text_frame)) s) = journal s @
         [(2516, Snapshot (Auto 0) ''page''), (2516, Recognize (Auto 0) 1 (Some ''page'')),
          (2516, Snapshot (Auto 2) ''page''), (2516, Recognize (Auto 2) 2 (Some ''page''))] \<and>
       journal (run [Frame 0 (Some text_frame), Frame 2 (Some text_frame)] s) = journal s @
         [(2516, Snapshot (Auto 0) ''page''), (2516, Recognize (Auto 0) 1 (Some ''page''))])"
  by (simp add: sys_defs sampler_text frame_simps)

subsection \<open>The loop of the current effect, and the timer of a loop\<close>

lemma seen_processing_set_phase [simp]:
  "map seen_processing (loops (set_phase i ph s)) = map seen_processing (loops s)"
  by (simp add: set_phase_def list_eq_iff_nth_eq nth_list_update)

lemma check_seen_processing:
  "map seen_processing (loops (check i vid s)) = map seen_processing (loops s)"
  by (simp add: check_def Let_def split: sample.splits option.splits)

lemma tick_seen_processing:
  "map seen_processing (loops (tick ids vid s)) = map seen_processing (loops s)"
  unfolding tick_def by (induction ids arbitrary: s) (simp_all add: check_seen_processing)

lemma handle_seen_processing:
  "map seen_processing (loops (handle e s)) = map seen_processing (loops s)"
  by (cases e)
     (simp_all add: check_seen_processing tick_seen_processing settle_def timer_fires_def
        Let_def split: option.splits origin.splits phase.splits)

lemma check_effect_loop: "effect_loop (check i vid s) = effect_loop s"
  by (simp add: check_def Let_def split: sample.splits option.splits)

lemma tick_effect_loop: "effect_loop (tick ids vid s) = effect_loop s"
  unfolding tick_def by (induction ids arbitrary: s) (simp_all add: check_effect_loop)

lemma handle_effect_loop: "effect_loop (handle e s) = effect_loop s"
  by (cases e)
     (simp_all add: check_effect_loop tick_effect_loop settle_def timer_fires_def Let_def
        split: option.splits origin.splits phase.splits)

lemma current_loop_step:
  assumes "\<And>i. effect_loop s = Some i \<Longrightarrow>
     i < length (loops s) \<and> seen_processing (loops s ! i) = processing (app s) \<and>
     seen_worker (loops s ! i) = worker (app s)"
    and "effect_loop (step e s) = Some k"
  shows "k < length (loops (step e s)) \<and>
     seen_processing (loops (step e s) ! k) = processing (app (step e s)) \<and>
     seen_worker (loops (step e s) ! k) = worker (app (step e s))"
proof (cases "deps (app (handle e s)) = deps (app s)")
  case True
  then have st: "step e s = handle e s" by (simp add: step_def commit_def)
  with assms(2) have k: "effect_loop s = Some k" by (simp add: handle_effect_loop)
  from assms(1) [OF k] have a: "k < length (loops s)"
    "seen_processing (loops s ! k) = processing (app s)"
    "seen_worker (loops s ! k) = worker (app s)" by simp_all
  have len: "length (loops (handle e s)) = length (loops s)"
    using handle_seen_workers [of e s] by (rule map_eq_imp_length_eq)
  have "map seen_processing (loops (handle e s)) ! k = map seen_processing (loops s) ! k"
    by (simp only: handle_seen_processing)
  then have p: "seen_processing (loops (handle e s) ! k) = seen_processing (loops s ! k)"
    using a(1) len by simp
  have "map seen_worker (loops (handle e s)) ! k = map seen_worker (loops s) ! k"
    by (simp only: handle_seen_workers)
  then have w: "seen_worker (loops (handle e s) ! k) = seen_worker (loops s ! k)"
    using a(1) len by simp
  from True have "processing (app (handle e s)) = processing (app s)"
    "worker (app (handle e s)) = worker (app s)" by (simp_all add: deps_def)
  with a len p w show ?thesis by (simp add: st)
next
  case False
  then have st: "step e s = run_effect (cleanup (handle e s))" by (simp add: step_def commit_def)
  have c: "app (cleanup (handle e s)) = app (handle e s)"
    by (simp add: cleanup_def split: option.splits)
  show ?thesis
    using assms(2) unfolding st by (auto simp: run_effect_def c split: if_splits)
qed

lemma current_loop_run:
  assumes "\<And>i. effect_loop s = Some i \<Longrightarrow>
     i < length (loops s) \<and> seen_processing (loops s ! i) = processing (app s) \<and>
     seen_worker (loops s ! i) = worker (app s)"
    and "effect_loop (run es s) = Some k"
  shows "k < length (loops (run es s)) \<and>
     seen_processing (loops (run es s) ! k) = processing (app (run es s)) \<and>
     seen_worker (loops (run es s) ! k) = worker (app (run es s))"
  using assms
proof (induction es arbitrary: s)
  case Nil
  then show ?case by simp
next
  case (Cons e es)
  have "j < length (loops (step e s)) \<and>
     seen_processing (loops (step e s) ! j) = processing (app (step e s)) \<and>
     seen_worker (loops (step e s) ! j) = worker (app (step e s))"
    if "effect_loop (step e s) = Some j" for j
    using Cons.prems(1) that by (rule current_loop_step)
  then show ?case
    using Cons.prems(2) unfolding run.simps by (rule Cons.IH)
qed

text \<open>
  What holds of single flight: in every reachable state the loop of the current effect
  holds the current \<open>processing\<close> and \<open>worker\<close>, so while \<open>processing\<close> is set its frame
  never triggers: no snapshot, no \<^verbatim>\<open>recognize\<close> call, no change of the component state.
  (Inside one refresh whose callbacks all run before the re-render, that loop can still
  capture after a stale loop did, as \<open>tick_runs_both_callbacks\<close> shows.)
\<close>

theorem current_loop_single_flight:
  assumes "effect_loop (run es initial) = Some i" and "processing (app (run es initial))"
  shows "seen_processing (loops (run es initial) ! i) \<and>
         seen_worker (loops (run es initial) ! i) = worker (app (run es initial)) \<and>
         sampler round_binary64 varianceThreshold
           (seen_processing (loops (run es initial) ! i)) vid \<noteq> Trigger \<and>
         journal (step (Frame i vid) (run es initial)) = journal (run es initial) \<and>
         jobs (step (Frame i vid) (run es initial)) = jobs (run es initial) \<and>
         app (step (Frame i vid) (run es initial)) = app (run es initial)"
proof -
  let ?s = "run es initial"
  have "j < length (loops initial) \<and> seen_processing (loops initial ! j) = processing (app initial) \<and>
     seen_worker (loops initial ! j) = worker (app initial)"
    if "effect_loop initial = Some j" for j
    using that by (simp add: initial_def)
  from current_loop_run [OF this assms(1)]
  have c: "i < length (loops ?s)" "seen_processing (loops ?s ! i) = processing (app ?s)"
    "seen_worker (loops ?s ! i) = worker (app ?s)" by simp_all
  with assms(2) have p: "seen_processing (loops ?s ! i)" by simp
  have q: "sampler round_binary64 varianceThreshold (seen_processing (loops ?s ! i)) vid \<noteq> Trigger"
    using p by (simp add: sampler_def Let_def split: option.splits)
  have "journal (check i vid ?s) = journal ?s \<and> jobs (check i vid ?s) = jobs ?s \<and>
        app (check i vid ?s) = app ?s"
    using q by (simp add: check_def Let_def split: sample.splits)
  with p c(3) q show ?thesis by simp
qed

theorem current_loop_single_flight_witness:
  "effect_loop (run [WorkerReady, ToggleAuto, Frame 0 (Some text_frame)] initial) = Some 1 \<and>
   processing (app (run [WorkerReady, ToggleAuto, Frame 0 (Some text_frame)] initial)) \<and>
   journal (step (Frame 1 (Some text_frame))
     (run [WorkerReady, ToggleAuto, Frame 0 (Some text_frame)] initial)) =
   journal (run [WorkerReady, ToggleAuto, Frame 0 (Some text_frame)] initial)"
proof -
  let ?es = "[WorkerReady, ToggleAuto, Frame 0 (Some text_frame)]"
  have h1: "effect_loop (run ?es initial) = Some 1"
    by (simp add: sys_defs sampler_text)
  have h2: "processing (app (run ?es initial))"
    by (simp add: sys_defs sampler_text)
  show ?thesis
    using h1 h2 current_loop_single_flight [OF h1 h2, of "Some text_frame"] by blast
qed


text \<open>
  What holds of the cooldown: when the recognition call of a loop settles, that loop
  waits for a timer due 1500 ms later, and until then neither its frame nor its timer
  changes anything.
\<close>

theorem loop_cooldown:
  "(map_of (jobs s) j = Some (Auto i) \<and> i < length (loops s) \<longrightarrow>
      phase (loops (step (Settle j out) s) ! i) = AwaitTimer (clock s + 1500)) \<and>
   (i < length (loops s) \<and> phase (loops s ! i) = AwaitTimer due \<and> clock s < due \<longrightarrow>
      step (Frame i vid) s = s \<and> step (TimerFires i) s = s)"
proof (rule conjI; rule impI)
  assume a: "map_of (jobs s) j = Some (Auto i) \<and> i < length (loops s)"
  define s1 where "s1 = settle j out s"
  have l: "i < length (loops s1)" and p: "phase (loops s1 ! i) = AwaitTimer (clock s + 1500)"
    using a by (simp_all add: s1_def settle_def Let_def phase_set_phase)
  have c: "phase (loops (cleanup s1) ! i) = AwaitTimer (clock s + 1500)"
    using l p by (auto simp: cleanup_def set_phase_def nth_list_update split: option.splits)
  have lc: "i < length (loops (cleanup s1))"
    using l by (simp add: cleanup_def split: option.splits)
  have "phase (loops (commit (app s) s1) ! i) = AwaitTimer (clock s + 1500)"
    using p c lc by (simp add: commit_def run_effect_def nth_append)
  then show "phase (loops (step (Settle j out) s) ! i) = AwaitTimer (clock s + 1500)"
    by (simp add: step_def s1_def)
next
  assume "i < length (loops s) \<and> phase (loops s ! i) = AwaitTimer due \<and> clock s < due"
  then show "step (Frame i vid) s = s \<and> step (TimerFires i) s = s"
    by (simp add: step_def check_def timer_fires_def commit_def)
qed

theorem loop_cooldown_witness:
  "map_of (jobs (run [WorkerReady, ToggleAuto, Frame 0 (Some text_frame)] initial)) 0 = Some (Auto 0) \<and>
   0 < length (loops (run [WorkerReady, ToggleAuto, Frame 0 (Some text_frame)] initial)) \<and>
   phase (loops (step (Settle 0 Rejected)
     (run [WorkerReady, ToggleAuto, Frame 0 (Some text_frame)] initial)) ! 0) =
     AwaitTimer (clock (run [WorkerReady, ToggleAuto, Frame 0 (Some text_frame)] initial) + 1500) \<and>
   0 < length (loops (run [WorkerReady, ToggleAuto, Frame 0 (Some text_frame), Settle 0 Rejected,
     Elapse 1499] initial)) \<and>
   phase (loops (run [WorkerReady, ToggleAuto, Frame 0 (Some text_frame), Settle 0 Rejected,
     Elapse 1499] initial) ! 0) = AwaitTimer 1500 \<and>
   clock (run [WorkerReady, ToggleAuto, Frame 0 (Some text_frame), Settle 0 Rejected,
     Elapse 1499] initial) < 1500 \<and>
   step (Frame 0 (Some text_frame)) (run [WorkerReady, ToggleAuto, Frame 0 (Some text_frame),
     Settle 0 Rejected, Elapse 1499] initial) =
   run [WorkerReady, ToggleAuto, Frame 0 (Some text_frame), Settle 0 Rejected, Elapse 1499] initial"
proof -
  let ?s = "run [WorkerReady, ToggleAuto, Frame 0 (Some text_frame)] initial"
  let ?t = "run [WorkerReady, ToggleAuto, Frame 0 (Some text_frame), Settle 0 Rejected,
     Elapse 1499] initial"
  have h1: "map_of (jobs ?s) 0 = Some (Auto 0) \<and> 0 < length (loops ?s)"
    by (simp add: sys_defs sampler_text)
  have h2: "0 < length (loops ?t) \<and> phase (loops ?t ! 0) = AwaitTimer 1500 \<and> clock ?t < 1500"
    by (simp add: sys_defs sampler_text)
  from loop_cooldown [of ?s 0 0 Rejected 1500 "Some text_frame"] h1
  have c1: "phase (loops (step (Settle 0 Rejected) ?s) ! 0) = AwaitTimer (clock ?s + 1500)"
    by blast
  from loop_cooldown [of ?t 0 0 Rejected 1500 "Some text_frame"] h2
  have c2: "step (Frame 0 (Some text_frame)) ?t = ?t"
    by blast
  from h1 h2 c1 c2 show ?thesis by blast
qed


end
